theory Spec2Isabelle
  imports Main "HOL-Library.Char_ord" "HOL-Library.Log_Nat"
begin

section \<open>The expression calculator of \<^verbatim>\<open>calc.go\<close>\<close>

text \<open>
  The Go package evaluates an arithmetic expression given as a string in four stages:
  validation, \<^verbatim>\<open>tokenize\<close>, \<^verbatim>\<open>infixToPostfix\<close> (shunting-yard) and
  \<^verbatim>\<open>evaluatePostfix\<close>.  Every function of \<^verbatim>\<open>calc.go\<close> is translated below under
  its own name.  A Go string is modelled by the list of its characters, in the order
  in which \<^verbatim>\<open>for _, char := range expr\<close> visits them.  The 256 values of \<^typ>\<open>char\<close>
  stand for the code points up to U+00FF; every character the program tells apart is
  ASCII, and a character beyond ASCII is rejected by the validator, copied by the
  tokenizer and rejected by \<^verbatim>\<open>ParseFloat\<close>, whichever it is.  A Go slice used as a stack
  keeps its top at the end of the list, as in the source (\<^verbatim>\<open>oper[len(oper)-1]\<close> is
  \<open>last oper\<close>).  A function that returns a value and an \<^verbatim>\<open>error\<close> returns a sum, with
  \<open>Inl\<close> for the error.
\<close>

subsection \<open>Errors\<close>

datatype error = ErrInvalidExpression | ErrMismatchedParentheses | ErrDivisionByZero

text \<open>The two error kinds of \<^verbatim>\<open>strconv.ParseFloat\<close>.\<close>

datatype num_error = ErrSyntax | ErrRange

subsection \<open>The type \<^verbatim>\<open>float64\<close>\<close>

text \<open>
  An IEEE 754 binary64 value is a signed finite number, a signed infinity or a NaN.
  \<open>Finite s m\<close> is the number of magnitude \<open>m \<ge> 0\<close>, negative when \<open>s\<close> holds; the two
  zeros are \<open>Finite False 0\<close> and \<open>Finite True 0\<close>.  The magnitudes that arithmetic
  produces are exact rationals of the form \<open>k * 2 ^ e\<close> with \<open>k < 2 ^ 53\<close> and
  \<open>- 1074 \<le> e \<le> 971\<close>, because every result goes through \<open>round64\<close>.
\<close>

datatype float64 = Finite bool rat | Infinity bool | NaN

definition pow2 :: "int \<Rightarrow> rat" where
  "pow2 e = (if 0 \<le> e then 2 ^ nat e else 1 / 2 ^ nat (- e))"

text \<open>\<open>ilog2 q\<close> is \<open>\<lfloor>log\<^sub>2 q\<rfloor>\<close> for a positive rational \<open>q\<close>.\<close>

definition ilog2 :: "rat \<Rightarrow> int" where
  "ilog2 q =
     (let (a, b) = quotient_of q; k = bitlen a - bitlen b
      in if pow2 k \<le> q then k else k - 1)"

definition round_half_even :: "rat \<Rightarrow> int" where
  "round_half_even x =
     (let f = \<lfloor>x\<rfloor>; d = x - of_int f
      in if d < 1 / 2 then f
         else if 1 / 2 < d then f + 1
         else if even f then f else f + 1)"

text \<open>
  Rounding to nearest, ties to even, of a magnitude \<open>q \<ge> 0\<close>: the unit in the last
  place is \<open>2 ^ e\<close> with \<open>e = \<lfloor>log\<^sub>2 q\<rfloor> - 52\<close>, but never below \<open>2 ^ - 1074\<close>
  (subnormal numbers); a rounded magnitude of \<open>2 ^ 1024\<close> or more overflows to infinity.
\<close>

definition round64 :: "bool \<Rightarrow> rat \<Rightarrow> float64" where
  "round64 s q =
     (if q = 0 then Finite s 0
      else let e = max (ilog2 q - 52) (- 1074);
               r = of_int (round_half_even (q / pow2 e)) * pow2 e
           in if 2 ^ 1024 \<le> r then Infinity s else Finite s r)"

text \<open>The comparison \<^verbatim>\<open>b == 0\<close>: true of both zeros, false of a NaN.\<close>

fun is_zero :: "float64 \<Rightarrow> bool" where
  "is_zero (Finite s m) = (m = 0)"
| "is_zero _ = False"

fun f64_neg :: "float64 \<Rightarrow> float64" where
  "f64_neg (Finite s m) = Finite (\<not> s) m"
| "f64_neg (Infinity s) = Infinity (\<not> s)"
| "f64_neg NaN = NaN"

definition signed :: "bool \<Rightarrow> rat \<Rightarrow> rat" where
  "signed s m = (if s then - m else m)"

text \<open>
  Go's \<^verbatim>\<open>a + b\<close>, \<^verbatim>\<open>a - b\<close>, \<^verbatim>\<open>a * b\<close> and \<^verbatim>\<open>a / b\<close> on \<^verbatim>\<open>float64\<close>: the exact result,
  rounded.  An exact sum of zero is \<open>+0\<close> unless both operands are negative (which
  happens only for \<open>-0 + -0\<close>).
\<close>

fun f64_add :: "float64 \<Rightarrow> float64 \<Rightarrow> float64" where
  "f64_add NaN _ = NaN"
| "f64_add _ NaN = NaN"
| "f64_add (Infinity s) (Infinity t) = (if s = t then Infinity s else NaN)"
| "f64_add (Infinity s) (Finite t b) = Infinity s"
| "f64_add (Finite s a) (Infinity t) = Infinity t"
| "f64_add (Finite s a) (Finite t b) =
     (let x = signed s a + signed t b
      in if x = 0 then Finite (s \<and> t) 0 else round64 (x < 0) \<bar>x\<bar>)"

definition f64_sub :: "float64 \<Rightarrow> float64 \<Rightarrow> float64" where
  "f64_sub a b = f64_add a (f64_neg b)"

fun f64_mul :: "float64 \<Rightarrow> float64 \<Rightarrow> float64" where
  "f64_mul NaN _ = NaN"
| "f64_mul _ NaN = NaN"
| "f64_mul (Infinity s) (Infinity t) = Infinity (s \<noteq> t)"
| "f64_mul (Infinity s) (Finite t b) = (if b = 0 then NaN else Infinity (s \<noteq> t))"
| "f64_mul (Finite s a) (Infinity t) = (if a = 0 then NaN else Infinity (s \<noteq> t))"
| "f64_mul (Finite s a) (Finite t b) = round64 (s \<noteq> t) (a * b)"

fun f64_div :: "float64 \<Rightarrow> float64 \<Rightarrow> float64" where
  "f64_div NaN _ = NaN"
| "f64_div _ NaN = NaN"
| "f64_div (Infinity s) (Infinity t) = NaN"
| "f64_div (Infinity s) (Finite t b) = Infinity (s \<noteq> t)"
| "f64_div (Finite s a) (Infinity t) = Finite (s \<noteq> t) 0"
| "f64_div (Finite s a) (Finite t b) =
     (if b = 0 then (if a = 0 then NaN else Infinity (s \<noteq> t))
      else round64 (s \<noteq> t) (a / b))"

subsection \<open>\<^verbatim>\<open>strconv.ParseFloat\<close>\<close>

text \<open>
  \<^verbatim>\<open>strconv.ParseFloat(s, 64)\<close> is the Go standard library's, modelled after its
  documented contract: it accepts the decimal and hexadecimal floating-point literals of
  Go's syntax (optionally signed, underscores allowed between digits) and the strings
  \<^verbatim>\<open>inf\<close>, \<^verbatim>\<open>infinity\<close> and \<^verbatim>\<open>nan\<close> in any case; it returns the nearest \<^verbatim>\<open>float64\<close>,
  rounded to even, and \<^verbatim>\<open>ErrRange\<close> with an infinity when the rounded value overflows;
  every other string is an \<^verbatim>\<open>ErrSyntax\<close>.
\<close>

definition is_digit :: "char \<Rightarrow> bool" where
  "is_digit c = (CHR ''0'' \<le> c \<and> c \<le> CHR ''9'')"

definition is_hex_letter :: "char \<Rightarrow> bool" where
  "is_hex_letter c = (CHR ''a'' \<le> c \<and> c \<le> CHR ''f'' \<or> CHR ''A'' \<le> c \<and> c \<le> CHR ''F'')"

definition digit_val :: "char \<Rightarrow> int" where
  "digit_val c =
     (if is_digit c then of_char c - 48
      else if CHR ''a'' \<le> c then of_char c - 87 else of_char c - 55)"

text \<open>The number that a string of digits spells in base \<open>b\<close>.\<close>

definition base_val :: "int \<Rightarrow> string \<Rightarrow> int" where
  "base_val b ds = foldl (\<lambda>a c. b * a + digit_val c) 0 ds"

definition to_lower :: "char \<Rightarrow> char" where
  "to_lower c = (if CHR ''A'' \<le> c \<and> c \<le> CHR ''Z'' then char_of (of_char c + (32::nat)) else c)"

definition special :: "string \<Rightarrow> float64 option" where
  "special s =
     (let l = map to_lower s
      in if l \<in> {''inf'', ''infinity'', ''+inf'', ''+infinity''} then Some (Infinity False)
         else if l \<in> {''-inf'', ''-infinity''} then Some (Infinity True)
         else if l = ''nan'' then Some NaN
         else None)"

text \<open>
  \<^verbatim>\<open>underscoreOK\<close>: an underscore must stand between two digits, or between a base
  prefix and a digit.  \<open>saw\<close> is the kind of the previous character.
\<close>

fun underscore_scan :: "bool \<Rightarrow> char \<Rightarrow> string \<Rightarrow> bool" where
  "underscore_scan hex saw [] = (saw \<noteq> CHR ''_'')"
| "underscore_scan hex saw (c # s) =
     (if is_digit c \<or> hex \<and> is_hex_letter c then underscore_scan hex (CHR ''0'') s
      else if c = CHR ''_'' then
        (if saw \<noteq> CHR ''0'' then False else underscore_scan hex (CHR ''_'') s)
      else if saw = CHR ''_'' then False
      else underscore_scan hex (CHR ''!'') s)"

definition strip_sign :: "string \<Rightarrow> bool \<times> string" where
  "strip_sign s =
     (case s of
        [] \<Rightarrow> (False, [])
      | c # t \<Rightarrow> if c = CHR ''+'' then (False, t)
                else if c = CHR ''-'' then (True, t) else (False, s))"

definition underscoreOK :: "string \<Rightarrow> bool" where
  "underscoreOK s =
     (case snd (strip_sign s) of
        z # x # t \<Rightarrow>
          if z = CHR ''0'' \<and> to_lower x \<in> {CHR ''b'', CHR ''o'', CHR ''x''}
          then underscore_scan (to_lower x = CHR ''x'') (CHR ''0'') t
          else underscore_scan False (CHR ''^'') (z # x # t)
      | r \<Rightarrow> underscore_scan False (CHR ''^'') r)"

text \<open>
  The exponent after \<^verbatim>\<open>e\<close> or \<^verbatim>\<open>p\<close>: an optional sign, a digit, then digits and
  underscores up to the end of the string.  The library stops accumulating once the
  exponent has reached 10000.
\<close>

definition read_exponent :: "string \<Rightarrow> int option" where
  "read_exponent s =
     (let (neg, r) = strip_sign s
      in if r = [] \<or> \<not> is_digit (hd r) \<or> \<not> list_all (\<lambda>c. is_digit c \<or> c = CHR ''_'') r
         then None
         else let e = foldl (\<lambda>e c. if c = CHR ''_'' then e
                                    else if e < 10000 then e * 10 + digit_val c else e) 0 r
              in Some (if neg then - e else e))"

text \<open>
  \<^verbatim>\<open>readFloat\<close>, for a string that has to be consumed as a whole.  After the sign, a
  prefix \<^verbatim>\<open>0x\<close> followed by at least one more character selects base 16.  The mantissa
  is the longest run of digits, underscores and points; it is well formed when it has
  a digit and at most one point, and its value is exact.
\<close>

definition hex_prefix :: "string \<Rightarrow> bool" where
  "hex_prefix r =
     (case r of
        z # x # t \<Rightarrow> z = CHR ''0'' \<and> to_lower x = CHR ''x'' \<and> t \<noteq> []
      | _ \<Rightarrow> False)"

definition mant_char :: "bool \<Rightarrow> char \<Rightarrow> bool" where
  "mant_char hex c = (is_digit c \<or> c = CHR ''_'' \<or> c = CHR ''.'' \<or> hex \<and> is_hex_letter c)"

definition num_char :: "char \<Rightarrow> bool" where
  "num_char c = (c \<noteq> CHR ''_'' \<and> c \<noteq> CHR ''.'')"

definition read_mantissa :: "bool \<Rightarrow> string \<Rightarrow> rat option" where
  "read_mantissa hex mant =
     (let int_part = filter num_char (takeWhile (\<lambda>c. c \<noteq> CHR ''.'') mant);
          frac_part = filter num_char (dropWhile (\<lambda>c. c \<noteq> CHR ''.'') mant);
          b = (if hex then 16 else 10)
      in if 1 < length (filter (\<lambda>c. c = CHR ''.'') mant) \<or> int_part @ frac_part = []
         then None
         else Some (of_int (base_val b (int_part @ frac_part)) / of_int (b ^ length frac_part)))"

text \<open>
  What follows the mantissa: nothing (a hexadecimal literal must have an exponent), or
  the exponent character and the exponent.
\<close>

definition read_tail :: "bool \<Rightarrow> string \<Rightarrow> int option" where
  "read_tail hex rest =
     (case rest of
        [] \<Rightarrow> if hex then None else Some 0
      | c # t \<Rightarrow> if to_lower c = (if hex then CHR ''p'' else CHR ''e'')
                 then read_exponent t else None)"

definition scale :: "bool \<Rightarrow> rat \<Rightarrow> int \<Rightarrow> rat" where
  "scale hex m e =
     (if hex then m * pow2 e
      else if 0 \<le> e then m * 10 ^ nat e else m / 10 ^ nat (- e))"

text \<open>The sign and the exact magnitude of the literal, or \<open>None\<close> for a syntax error.\<close>

definition readFloat :: "string \<Rightarrow> (bool \<times> rat) option" where
  "readFloat s =
     (let (neg, r) = strip_sign s;
          hex = hex_prefix r;
          body = (if hex then drop 2 r else r);
          mant = takeWhile (mant_char hex) body;
          rest = dropWhile (mant_char hex) body
      in if CHR ''_'' \<in> set s \<and> \<not> underscoreOK s then None
         else case read_mantissa hex mant of
                None \<Rightarrow> None
              | Some m \<Rightarrow>
                  (case read_tail hex rest of
                     None \<Rightarrow> None
                   | Some e \<Rightarrow> Some (neg, scale hex m e)))"

definition ParseFloat :: "string \<Rightarrow> float64 \<times> num_error option" where
  "ParseFloat s =
     (case special s of
        Some v \<Rightarrow> (v, None)
      | None \<Rightarrow>
          (case readFloat s of
             None \<Rightarrow> (Finite False 0, Some ErrSyntax)
           | Some (neg, q) \<Rightarrow>
               (case round64 neg q of
                  Infinity sg \<Rightarrow> (Infinity sg, Some ErrRange)
                | v \<Rightarrow> (v, None))))"

subsection \<open>\<^verbatim>\<open>strings.TrimSpace\<close> and \<^verbatim>\<open>strings.ContainsRune\<close>\<close>

text \<open>
  The white space of \<^verbatim>\<open>unicode.IsSpace\<close> among the characters of \<^typ>\<open>char\<close>: tab, line
  feed, vertical tab, form feed, carriage return, space, NEL and NBSP.
\<close>

definition isSpace :: "char \<Rightarrow> bool" where
  "isSpace c = (c \<in> {CHR 0x09, CHR 0x0A, CHR 0x0B, CHR 0x0C, CHR 0x0D, CHR 0x20, CHR 0x85, CHR 0xA0})"

definition TrimSpace :: "string \<Rightarrow> string" where
  "TrimSpace s = rev (dropWhile isSpace (rev (dropWhile isSpace s)))"

definition ContainsRune :: "string \<Rightarrow> char \<Rightarrow> bool" where
  "ContainsRune s r = (r \<in> set s)"

subsection \<open>\<^verbatim>\<open>isNumber\<close>, \<^verbatim>\<open>isOperator\<close>, \<^verbatim>\<open>precedence\<close>\<close>

definition isNumber :: "string \<Rightarrow> bool" where
  "isNumber token = (snd (ParseFloat token) = None)"

definition isOperator :: "string \<Rightarrow> bool" where
  "isOperator token = (token = ''+'' \<or> token = ''-'' \<or> token = ''*'' \<or> token = ''/'')"

definition precedence :: "string \<Rightarrow> int" where
  "precedence op =
     (if op = ''+'' \<or> op = ''-'' then 1
      else if op = ''*'' \<or> op = ''/'' then 2
      else 0)"

subsection \<open>\<^verbatim>\<open>isValidExpression\<close>\<close>

fun isValidExpression :: "string \<Rightarrow> bool" where
  "isValidExpression [] = True"
| "isValidExpression (char # expr) =
     (if \<not> (CHR ''0'' \<le> char \<and> char \<le> CHR ''9'') \<and> \<not> ContainsRune ''+-*/() '' char
      then False
      else isValidExpression expr)"

subsection \<open>\<^verbatim>\<open>tokenize\<close>\<close>

text \<open>
  The loop of \<^verbatim>\<open>tokenize\<close> over the characters, with the slice \<^verbatim>\<open>tokens\<close> and the
  builder \<^verbatim>\<open>currentToken\<close> as its state.
\<close>

fun tokenize_loop :: "string \<Rightarrow> string list \<Rightarrow> string \<Rightarrow> string list \<times> string" where
  "tokenize_loop [] tokens currentToken = (tokens, currentToken)"
| "tokenize_loop (char # expr) tokens currentToken =
     (if char = CHR '' '' then tokenize_loop expr tokens currentToken
      else if char \<in> {CHR ''+'', CHR ''-'', CHR ''*'', CHR ''/'', CHR ''('', CHR '')''} then
        (if length currentToken > 0
         then tokenize_loop expr ((tokens @ [currentToken]) @ [[char]]) []
         else tokenize_loop expr (tokens @ [[char]]) currentToken)
      else tokenize_loop expr tokens (currentToken @ [char]))"

definition tokenize :: "string \<Rightarrow> string list" where
  "tokenize expr =
     (case tokenize_loop expr [] [] of
        (tokens, currentToken) \<Rightarrow>
          if length currentToken > 0 then tokens @ [currentToken] else tokens)"

subsection \<open>\<^verbatim>\<open>infixToPostfix\<close>\<close>

text \<open>The inner loop of the \<^verbatim>\<open>")"\<close> branch: pop operators into the output down to a \<^verbatim>\<open>"("\<close>.\<close>

function pop_to_paren :: "string list \<Rightarrow> string list \<Rightarrow> string list \<times> string list" where
  "pop_to_paren output oper =
     (if length oper > 0 \<and> last oper \<noteq> ''(''
      then pop_to_paren (output @ [last oper]) (butlast oper)
      else (output, oper))"
  by pat_completeness auto
termination
  by (relation "measure (\<lambda>(output, oper). length oper)") auto

text \<open>
  The inner loop of the operator branch: pop the operators whose precedence is at least
  that of the incoming token.
\<close>

function pop_higher :: "string \<Rightarrow> string list \<Rightarrow> string list \<Rightarrow> string list \<times> string list" where
  "pop_higher token output oper =
     (if length oper > 0 \<and> precedence (last oper) \<ge> precedence token
      then pop_higher token (output @ [last oper]) (butlast oper)
      else (output, oper))"
  by pat_completeness auto
termination
  by (relation "measure (\<lambda>(token, output, oper). length oper)") auto

text \<open>The loop over the tokens; its state is the output and the operator stack.\<close>

fun convert_loop ::
  "string list \<Rightarrow> string list \<Rightarrow> string list \<Rightarrow> error + string list \<times> string list" where
  "convert_loop [] output oper = Inr (output, oper)"
| "convert_loop (token # tokens) output oper =
     (if isNumber token then convert_loop tokens (output @ [token]) oper
      else if token = ''('' then convert_loop tokens output (oper @ [token])
      else if token = '')'' then
        (case pop_to_paren output oper of
           (output', oper') \<Rightarrow>
             if length oper' = 0 then Inl ErrMismatchedParentheses
             else convert_loop tokens output' (butlast oper'))
      else if isOperator token then
        (case pop_higher token output oper of
           (output', oper') \<Rightarrow> convert_loop tokens output' (oper' @ [token]))
      else Inl ErrInvalidExpression)"

text \<open>The final loop: pop what is left on the operator stack.\<close>

function drain :: "string list \<Rightarrow> string list \<Rightarrow> error + string list" where
  "drain output oper =
     (if length oper > 0 then
        (if last oper = ''('' then Inl ErrMismatchedParentheses
         else drain (output @ [last oper]) (butlast oper))
      else Inr output)"
  by pat_completeness auto
termination
  by (relation "measure (\<lambda>(output, oper). length oper)") auto

definition infixToPostfix :: "string list \<Rightarrow> error + string list" where
  "infixToPostfix tokens =
     (case convert_loop tokens [] [] of
        Inl err \<Rightarrow> Inl err
      | Inr (output, oper) \<Rightarrow> drain output oper)"

subsection \<open>\<^verbatim>\<open>evaluatePostfix\<close>\<close>

text \<open>The loop over the postfix tokens; its state is the value stack.\<close>

fun eval_loop :: "string list \<Rightarrow> float64 list \<Rightarrow> error + float64 list" where
  "eval_loop [] stack = Inr stack"
| "eval_loop (token # postfix) stack =
     (if isNumber token then eval_loop postfix (stack @ [fst (ParseFloat token)])
      else if isOperator token then
        (if length stack < 2 then Inl ErrInvalidExpression
         else let b = stack ! (length stack - 1);
                  a = stack ! (length stack - 2);
                  stack' = take (length stack - 2) stack
              in if token = ''+'' then eval_loop postfix (stack' @ [f64_add a b])
                 else if token = ''-'' then eval_loop postfix (stack' @ [f64_sub a b])
                 else if token = ''*'' then eval_loop postfix (stack' @ [f64_mul a b])
                 else if token = ''/'' then
                   (if is_zero b then Inl ErrDivisionByZero
                    else eval_loop postfix (stack' @ [f64_div a b]))
                 else Inl ErrInvalidExpression)
      else Inl ErrInvalidExpression)"

definition evaluatePostfix :: "string list \<Rightarrow> error + float64" where
  "evaluatePostfix postfix =
     (case eval_loop postfix [] of
        Inl err \<Rightarrow> Inl err
      | Inr stack \<Rightarrow> if length stack \<noteq> 1 then Inl ErrInvalidExpression else Inr (stack ! 0))"

subsection \<open>\<^verbatim>\<open>Calc\<close>\<close>

definition Calc :: "string \<Rightarrow> error + float64" where
  "Calc expression =
     (if TrimSpace expression = [] then Inl ErrInvalidExpression
      else if \<not> isValidExpression expression then Inl ErrInvalidExpression
      else let tokens = tokenize expression
           in case infixToPostfix tokens of
                Inl err \<Rightarrow> Inl err
              | Inr postfix \<Rightarrow> evaluatePostfix postfix)"

section \<open>Notions used to state the properties\<close>

text \<open>The characters that \<^verbatim>\<open>tokenize\<close> emits as tokens of their own.\<close>

definition delimiter :: "char \<Rightarrow> bool" where
  "delimiter c = (c \<in> {CHR ''+'', CHR ''-'', CHR ''*'', CHR ''/'', CHR ''('', CHR '')''})"

text \<open>
  The expressions of the calculator, as the usual unambiguous grammar: a sum is a
  chain of products joined by \<^verbatim>\<open>+\<close> and \<^verbatim>\<open>-\<close>, a product a chain of atoms joined by \<^verbatim>\<open>*\<close> and
  \<^verbatim>\<open>/\<close>, both grouping to the left, and an atom is a literal or a sum in parentheses.
\<close>

datatype sum_expr = Term prod_expr | Add sum_expr prod_expr | Sub sum_expr prod_expr
  and prod_expr = Factor atom_expr | Mul prod_expr atom_expr | Quot prod_expr atom_expr
  and atom_expr = Lit string | Paren sum_expr

text \<open>The tokens that spell an expression.\<close>

primrec tokens_sum :: "sum_expr \<Rightarrow> string list"
  and tokens_prod :: "prod_expr \<Rightarrow> string list"
  and tokens_atom :: "atom_expr \<Rightarrow> string list" where
  "tokens_sum (Term t) = tokens_prod t"
| "tokens_sum (Add e t) = tokens_sum e @ [''+''] @ tokens_prod t"
| "tokens_sum (Sub e t) = tokens_sum e @ [''-''] @ tokens_prod t"
| "tokens_prod (Factor f) = tokens_atom f"
| "tokens_prod (Mul t f) = tokens_prod t @ [''*''] @ tokens_atom f"
| "tokens_prod (Quot t f) = tokens_prod t @ [''/''] @ tokens_atom f"
| "tokens_atom (Lit n) = [n]"
| "tokens_atom (Paren e) = [''(''] @ tokens_sum e @ ['')'']"

fun is_finite :: "float64 \<Rightarrow> bool" where
  "is_finite (Finite s m) = True"
| "is_finite _ = False"

text \<open>
  A literal is a non-empty string of decimal digits; it denotes the \<^verbatim>\<open>float64\<close> nearest to
  the number it spells, which has to be finite.
\<close>

definition literal_value :: "string \<Rightarrow> float64" where
  "literal_value n = round64 False (of_int (base_val 10 n))"

definition literal_ok :: "string \<Rightarrow> bool" where
  "literal_ok n = (n \<noteq> [] \<and> list_all is_digit n \<and> is_finite (literal_value n))"

primrec literals_sum :: "sum_expr \<Rightarrow> bool"
  and literals_prod :: "prod_expr \<Rightarrow> bool"
  and literals_atom :: "atom_expr \<Rightarrow> bool" where
  "literals_sum (Term t) = literals_prod t"
| "literals_sum (Add e t) = (literals_sum e \<and> literals_prod t)"
| "literals_sum (Sub e t) = (literals_sum e \<and> literals_prod t)"
| "literals_prod (Factor f) = literals_atom f"
| "literals_prod (Mul t f) = (literals_prod t \<and> literals_atom f)"
| "literals_prod (Quot t f) = (literals_prod t \<and> literals_atom f)"
| "literals_atom (Lit n) = literal_ok n"
| "literals_atom (Paren e) = literals_sum e"

text \<open>
  The value of an expression in \<^verbatim>\<open>float64\<close> arithmetic: operands are evaluated from left
  to right, and a division whose divisor is zero is an error.
\<close>

definition binary ::
  "(float64 \<Rightarrow> float64 \<Rightarrow> error + float64) \<Rightarrow> error + float64 \<Rightarrow> error + float64
    \<Rightarrow> error + float64" where
  "binary f x y =
     (case x of
        Inl err \<Rightarrow> Inl err
      | Inr a \<Rightarrow> (case y of Inl err \<Rightarrow> Inl err | Inr b \<Rightarrow> f a b))"

definition quotient :: "float64 \<Rightarrow> float64 \<Rightarrow> error + float64" where
  "quotient a b = (if is_zero b then Inl ErrDivisionByZero else Inr (f64_div a b))"

primrec value_sum :: "sum_expr \<Rightarrow> error + float64"
  and value_prod :: "prod_expr \<Rightarrow> error + float64"
  and value_atom :: "atom_expr \<Rightarrow> error + float64" where
  "value_sum (Term t) = value_prod t"
| "value_sum (Add e t) = binary (\<lambda>a b. Inr (f64_add a b)) (value_sum e) (value_prod t)"
| "value_sum (Sub e t) = binary (\<lambda>a b. Inr (f64_sub a b)) (value_sum e) (value_prod t)"
| "value_prod (Factor f) = value_atom f"
| "value_prod (Mul t f) = binary (\<lambda>a b. Inr (f64_mul a b)) (value_prod t) (value_atom f)"
| "value_prod (Quot t f) = binary quotient (value_prod t) (value_atom f)"
| "value_atom (Lit n) = Inr (literal_value n)"
| "value_atom (Paren e) = value_sum e"

text \<open>The postfix form of an expression.\<close>

primrec postfix_sum :: "sum_expr \<Rightarrow> string list"
  and postfix_prod :: "prod_expr \<Rightarrow> string list"
  and postfix_atom :: "atom_expr \<Rightarrow> string list" where
  "postfix_sum (Term t) = postfix_prod t"
| "postfix_sum (Add e t) = postfix_sum e @ postfix_prod t @ [''+'']"
| "postfix_sum (Sub e t) = postfix_sum e @ postfix_prod t @ [''-'']"
| "postfix_prod (Factor f) = postfix_atom f"
| "postfix_prod (Mul t f) = postfix_prod t @ postfix_atom f @ [''*'']"
| "postfix_prod (Quot t f) = postfix_prod t @ postfix_atom f @ [''/'']"
| "postfix_atom (Lit n) = [n]"
| "postfix_atom (Paren e) = postfix_sum e"

text \<open>
  When the converter has read a product or a sum, the operators of its last, still open
  levels wait on the operator stack: \<open>pending\<close> lists them from the bottom, and \<open>emitted\<close>
  is the part of the postfix form that is already in the output.
\<close>

fun pending_prod :: "prod_expr \<Rightarrow> string list" where
  "pending_prod (Factor f) = []"
| "pending_prod (Mul t f) = [''*'']"
| "pending_prod (Quot t f) = [''/'']"

fun pending_sum :: "sum_expr \<Rightarrow> string list" where
  "pending_sum (Term t) = pending_prod t"
| "pending_sum (Add e t) = ''+'' # pending_prod t"
| "pending_sum (Sub e t) = ''-'' # pending_prod t"

fun emitted_prod :: "prod_expr \<Rightarrow> string list" where
  "emitted_prod (Factor f) = postfix_atom f"
| "emitted_prod (Mul t f) = postfix_prod t @ postfix_atom f"
| "emitted_prod (Quot t f) = postfix_prod t @ postfix_atom f"

fun emitted_sum :: "sum_expr \<Rightarrow> string list" where
  "emitted_sum (Term t) = emitted_prod t"
| "emitted_sum (Add e t) = postfix_sum e @ emitted_prod t"
| "emitted_sum (Sub e t) = postfix_sum e @ emitted_prod t"

text \<open>
  Token lists that \<^verbatim>\<open>tokenize\<close> reads back from their concatenation: every token is a
  delimiter or a non-empty word without spaces and delimiters, and no two words are
  adjacent.
\<close>

definition delimiter_token :: "string \<Rightarrow> bool" where
  "delimiter_token t = (length t = 1 \<and> delimiter (hd t))"

definition word_token :: "string \<Rightarrow> bool" where
  "word_token t = (t \<noteq> [] \<and> (\<forall>c \<in> set t. c \<noteq> CHR '' '' \<and> \<not> delimiter c))"

fun separated :: "string list \<Rightarrow> bool" where
  "separated [] = True"
| "separated (t # ts) =
     ((delimiter_token t \<or> word_token t \<and> (ts = [] \<or> delimiter_token (hd ts)))
      \<and> separated ts)"

section \<open>Properties\<close>

subsection \<open>Rounding\<close>

lemma pow2_powi: "pow2 e = 2 powi e"
  by (simp add: pow2_def power_int_def field_simps)

lemma pow2_pos: "0 < pow2 e"
  by (simp add: pow2_powi)

lemma pow2_add: "pow2 (a + b) = pow2 a * pow2 b"
  by (simp add: pow2_powi power_int_add)

lemma pow2_mono: "a \<le> b \<Longrightarrow> pow2 a \<le> pow2 b"
  by (simp add: pow2_powi power_int_increasing)

lemma pow2_less_iff: "pow2 a < pow2 b \<longleftrightarrow> a < b"
proof
  assume "pow2 a < pow2 b"
  then show "a < b" using pow2_mono[of b a] by (cases "a < b") auto
next
  assume "a < b"
  then show "pow2 a < pow2 b" by (simp add: pow2_powi power_int_strict_increasing)
qed

lemma pow2_le_iff: "pow2 a \<le> pow2 b \<longleftrightarrow> a \<le> b"
  using pow2_less_iff[of b a] by (auto simp: not_less[symmetric])

lemma bitlen_pow2_bounds:
  assumes "0 < a"
  shows "pow2 (bitlen a - 1) \<le> of_int a" and "of_int a < pow2 (bitlen a)"
proof -
  have la: "1 \<le> bitlen a" using assms by (simp add: bitlen_ge_iff_power)
  have "(of_int (2 ^ nat (bitlen a - 1)) :: rat) \<le> of_int a"
    using bitlen_bounds[OF assms] by (simp only: of_int_le_iff)
  then show "pow2 (bitlen a - 1) \<le> of_int a" using la by (simp add: pow2_def)
  have "(of_int a :: rat) < of_int (2 ^ nat (bitlen a))"
    using bitlen_bounds[OF assms] by (simp only: of_int_less_iff)
  then show "of_int a < pow2 (bitlen a)" using la by (simp add: pow2_def)
qed


lemma pow2_nat: "pow2 (int n) = 2 ^ n"
  by (simp add: pow2_def)

lemma ilog2_bounds:
  assumes "0 < q"
  shows "pow2 (ilog2 q) \<le> q" and "q < pow2 (ilog2 q + 1)"
proof -
  obtain a b where ab: "quotient_of q = (a, b)" by (cases "quotient_of q")
  have b: "0 < b" using ab quotient_of_denom_pos by blast
  have q: "q = of_int a / of_int b" using ab quotient_of_div by blast
  have a: "0 < a" using assms b q by (simp add: zero_less_divide_iff)
  define k where "k = bitlen a - bitlen b"
  have la: "1 \<le> bitlen a" and lb: "1 \<le> bitlen b"
    using a b by (simp_all add: bitlen_ge_iff_power)
  note a1 = bitlen_pow2_bounds(1)[OF a] and a2 = bitlen_pow2_bounds(2)[OF a]
  note b1 = bitlen_pow2_bounds(1)[OF b] and b2 = bitlen_pow2_bounds(2)[OF b]
  have lo: "pow2 (k - 1) \<le> q"
  proof -
    have "pow2 (k - 1) * of_int b \<le> pow2 (k - 1) * pow2 (bitlen b)"
      using b2 pow2_pos[of "k - 1"] by (simp add: less_imp_le)
    also have "\<dots> = pow2 (bitlen a - 1)" by (simp add: k_def flip: pow2_add)
    also have "\<dots> \<le> of_int a" by (rule a1)
    finally show ?thesis using b by (simp add: q pos_le_divide_eq)
  qed
  have hi: "q < pow2 (k + 1)"
  proof -
    have "of_int a < pow2 (bitlen a)" by (rule a2)
    also have "\<dots> = pow2 (k + 1) * pow2 (bitlen b - 1)" by (simp add: k_def flip: pow2_add)
    also have "\<dots> \<le> pow2 (k + 1) * of_int b"
      using b1 pow2_pos[of "k + 1"] by simp
    finally show ?thesis using b by (simp add: q pos_divide_less_eq)
  qed
  have il: "ilog2 q = (if pow2 k \<le> q then k else k - 1)"
    by (simp add: ilog2_def ab k_def)
  show "pow2 (ilog2 q) \<le> q" using lo by (simp add: il)
  show "q < pow2 (ilog2 q + 1)" using hi by (auto simp add: il)
qed


lemma round_half_even_of_int [simp]: "round_half_even (of_int n) = n"
  by (simp add: round_half_even_def)

text \<open>Every number \<open>m * 2 ^ e\<close> with \<open>m < 2 ^ 53\<close> and \<open>- 1074 \<le> e \<le> 971\<close> is a \<^verbatim>\<open>float64\<close>.\<close>

lemma round64_representable:
  assumes m: "0 \<le> m" "m < 2 ^ 53" and e: "- 1074 \<le> e" "e \<le> 971"
  shows "round64 s (of_int m * pow2 e) = Finite s (of_int m * pow2 e)"
proof (cases "m = 0")
  case True
  then show ?thesis by (simp add: round64_def)
next
  case False
  define q where "q = of_int m * pow2 e"
  have m0: "0 < m" using False m by simp
  have q0: "0 < q" using m0 pow2_pos by (simp add: q_def)
  have "(of_int m :: rat) < of_int (2 ^ 53)" using m(2) by (simp only: of_int_less_iff)
  then have m53: "(of_int m :: rat) < pow2 53" by (simp add: pow2_def)
  have "pow2 (ilog2 q) \<le> q" by (rule ilog2_bounds(1)[OF q0])
  also have "q < pow2 53 * pow2 e" using m53 pow2_pos[of e] by (simp add: q_def)
  finally have "ilog2 q < 53 + e" by (simp add: pow2_less_iff flip: pow2_add)
  define d where "d = max (ilog2 q - 52) (- 1074)"
  have de: "d \<le> e" using \<open>ilog2 q < 53 + e\<close> e by (simp add: d_def)
  have "q / pow2 d = of_int m * pow2 (e - d)"
    using pow2_add[of "e - d" d] pow2_pos[of d] by (simp add: q_def)
  also have "\<dots> = of_int (m * 2 ^ nat (e - d))" using de by (simp add: pow2_def)
  finally have int: "q / pow2 d = of_int (m * 2 ^ nat (e - d))" .
  have "of_int (round_half_even (q / pow2 d)) = q / pow2 d"
    by (simp only: int round_half_even_of_int)
  then have r: "of_int (round_half_even (q / pow2 d)) * pow2 d = q"
    using pow2_pos[of d] by simp
  have "q < pow2 53 * pow2 e" by fact
  also have "\<dots> \<le> pow2 1024" using e by (simp add: pow2_le_iff flip: pow2_add)
  finally have "\<not> 2 ^ 1024 \<le> q" by (simp add: pow2_def)
  then show ?thesis using q0 r
    unfolding round64_def q_def[symmetric] d_def[symmetric] Let_def by simp
qed

lemma round64_of_int:
  assumes "0 \<le> m" "m < 2 ^ 53"
  shows "round64 s (of_int m) = Finite s (of_int m)"
  using round64_representable[OF assms, of 0 s] by (simp add: pow2_def)

lemma round64_numeral [simp]:
  "numeral k < (2 ^ 53 :: int) \<Longrightarrow> round64 s (numeral k) = Finite s (numeral k)"
  using round64_of_int[of "numeral k" s] by simp

lemma round64_0 [simp]: "round64 s 0 = Finite s 0"
  by (simp add: round64_def)

lemma round64_1 [simp]: "round64 s 1 = Finite s 1"
  using round64_of_int[of 1 s] by simp

subsection \<open>Numbers\<close>

lemma char_eq_code: "c = d \<longleftrightarrow> (of_char c :: nat) = of_char d"
  by simp

lemma is_digit_iff: "is_digit c \<longleftrightarrow> c \<in> set ''0123456789''"
proof -
  have "is_digit c \<longleftrightarrow> 48 \<le> (of_char c :: nat) \<and> (of_char c :: nat) \<le> 57"
    by (simp add: is_digit_def less_eq_char_def)
  also have "\<dots> \<longleftrightarrow> (of_char c :: nat) \<in> {48, 49, 50, 51, 52, 53, 54, 55, 56, 57}"
    by (simp add: insert_iff) arith
  also have "\<dots> \<longleftrightarrow> c \<in> set ''0123456789''"
    by (simp add: char_eq_code[of c])
  finally show ?thesis .
qed

lemma is_digit_not_special:
  assumes "is_digit c"
  shows "c \<noteq> CHR ''+''" "c \<noteq> CHR ''-''" "c \<noteq> CHR ''_''" "c \<noteq> CHR ''.''"
    "to_lower c = c" "c \<noteq> CHR ''x''" "c \<noteq> CHR ''i''" "c \<noteq> CHR ''n''" "c \<noteq> CHR '' ''"
    "c \<noteq> CHR ''*''" "c \<noteq> CHR ''/''" "c \<noteq> CHR ''(''" "c \<noteq> CHR '')''"
  using assms by (auto simp: is_digit_iff to_lower_def less_eq_char_def)


lemma special_digits:
  assumes "ds \<noteq> []" "is_digit (hd ds)"
  shows "special ds = None"
proof -
  obtain c t where ds: "ds = c # t" using assms(1) by (cases ds) auto
  have c: "is_digit c" using assms(2) ds by simp
  show ?thesis
    using is_digit_not_special[OF c] by (simp add: special_def ds)
qed

lemma hex_prefix_digits:
  assumes "list_all is_digit ds"
  shows "\<not> hex_prefix ds"
proof (cases ds)
  case Nil
  then show ?thesis by (simp add: hex_prefix_def)
next
  case (Cons z t)
  show ?thesis
  proof (cases t)
    case Nil
    then show ?thesis by (simp add: hex_prefix_def Cons)
  next
    case (Cons x u)
    then have "is_digit x" using assms \<open>ds = z # t\<close> by simp
    then show ?thesis
      using is_digit_not_special(5,6)[of x] by (simp add: hex_prefix_def Cons \<open>ds = z # t\<close>)
  qed
qed

lemma read_mantissa_digits:
  assumes "ds \<noteq> []" "list_all is_digit ds"
  shows "read_mantissa False ds = Some (of_int (base_val 10 ds))"
proof -
  have all: "\<And>x. x \<in> set ds \<Longrightarrow> is_digit x" using assms(2) by (simp add: list_all_iff)
  have nodot: "takeWhile (\<lambda>c. c \<noteq> CHR ''.'') ds = ds" "dropWhile (\<lambda>c. c \<noteq> CHR ''.'') ds = []"
    "filter (\<lambda>c. c = CHR ''.'') ds = []"
    using all is_digit_not_special(4) by (auto simp: takeWhile_eq_all_conv filter_empty_conv)
  have num: "filter num_char ds = ds"
    using all is_digit_not_special(3,4) by (auto simp: filter_id_conv num_char_def)
  show ?thesis
    by (simp add: read_mantissa_def nodot num assms(1))
qed

lemma readFloat_digits:
  assumes "ds \<noteq> []" "list_all is_digit ds"
  shows "readFloat ds = Some (False, of_int (base_val 10 ds))"
proof -
  obtain c t where ds: "ds = c # t" using assms(1) by (cases ds) auto
  have all: "\<And>x. x \<in> set ds \<Longrightarrow> is_digit x" using assms(2) by (simp add: list_all_iff)
  have c: "is_digit c" using all ds by simp
  have sign: "strip_sign ds = (False, ds)"
    using is_digit_not_special(1,2)[OF c] by (simp add: strip_sign_def ds)
  have tw: "takeWhile (mant_char False) ds = ds"
    using all by (simp add: takeWhile_eq_all_conv mant_char_def)
  have dw: "dropWhile (mant_char False) ds = []"
    using all by (simp add: mant_char_def)
  have us: "CHR ''_'' \<notin> set ds" using all is_digit_not_special(3) by blast
  show ?thesis
    by (simp add: readFloat_def sign hex_prefix_digits[OF assms(2)] tw dw us
        read_mantissa_digits[OF assms] read_tail_def scale_def)
qed


lemma ParseFloat_digits:
  assumes "ds \<noteq> []" "list_all is_digit ds"
  shows "ParseFloat ds =
    (case round64 False (of_int (base_val 10 ds)) of
       Infinity sg \<Rightarrow> (Infinity sg, Some ErrRange)
     | v \<Rightarrow> (v, None))"
proof -
  have "is_digit (hd ds)" using assms by (cases ds) auto
  then show ?thesis
    by (simp add: ParseFloat_def special_digits[OF assms(1)] readFloat_digits[OF assms])
qed

lemma digit_val_nonneg: "is_digit c \<Longrightarrow> 0 \<le> digit_val c"
proof -
  assume d: "is_digit c"
  have eq: "(of_char c :: int) = int (of_char c)" by (simp only: of_nat_of_char)
  have "48 \<le> (of_char c :: nat)" using d by (simp add: is_digit_def less_eq_char_def)
  then have "48 \<le> (of_char c :: int)" unfolding eq by linarith
  then show ?thesis using d by (simp add: digit_val_def)
qed

lemma foldl_digits_nonneg:
  "list_all is_digit ds \<Longrightarrow> 0 \<le> a \<Longrightarrow> 0 \<le> foldl (\<lambda>a c. 10 * a + digit_val c) a ds"
proof (induction ds arbitrary: a)
  case Nil
  then show ?case by simp
next
  case (Cons c ds)
  have "0 \<le> 10 * a + digit_val c" using Cons.prems digit_val_nonneg[of c] by simp
  then show ?case using Cons by simp
qed

lemma base_val_nonneg: "list_all is_digit ds \<Longrightarrow> 0 \<le> base_val 10 ds"
  using foldl_digits_nonneg[of ds 0] by (simp add: base_val_def)

lemma ParseFloat_small:
  assumes "ds \<noteq> []" "list_all is_digit ds" "base_val 10 ds < 2 ^ 53"
  shows "ParseFloat ds = (Finite False (of_int (base_val 10 ds)), None)"
  by (simp add: ParseFloat_digits[OF assms(1,2)] round64_of_int[OF base_val_nonneg[OF assms(2)] assms(3)])


lemma not_number_ops:
  "\<not> isNumber ''+''" "\<not> isNumber ''-''" "\<not> isNumber ''*''" "\<not> isNumber ''/''"
  "\<not> isNumber ''(''" "\<not> isNumber '')''"
  by code_simp+


lemma isNumber_small:
  "ds \<noteq> [] \<Longrightarrow> list_all is_digit ds \<Longrightarrow> base_val 10 ds < 2 ^ 53 \<Longrightarrow> isNumber ds"
  by (simp add: isNumber_def ParseFloat_small)

lemmas digit_eval = is_digit_def less_eq_char_def base_val_def digit_val_def

lemmas calc_eval = Calc_def TrimSpace_def isSpace_def ContainsRune_def tokenize_def
  infixToPostfix_def evaluatePostfix_def isOperator_def precedence_def f64_sub_def signed_def
  isNumber_small ParseFloat_small not_number_ops digit_eval

subsection \<open>Steps of the evaluator\<close>

lemma eval_loop_number:
  "isNumber t \<Longrightarrow> eval_loop (t # rest) st = eval_loop rest (st @ [fst (ParseFloat t)])"
  by simp

lemma stack_top2:
  "(st @ [a, b]) ! (length (st @ [a, b]) - 1) = b"
  "(st @ [a, b]) ! (length (st @ [a, b]) - 2) = a"
  "take (length (st @ [a, b]) - 2) (st @ [a, b]) = st"
  by (simp_all add: nth_append)

lemma eval_loop_add:
  "eval_loop (''+'' # rest) (st @ [a, b]) = eval_loop rest (st @ [f64_add a b])"
  using stack_top2[of st a b] by (simp add: not_number_ops isOperator_def Let_def)

lemma eval_loop_sub:
  "eval_loop (''-'' # rest) (st @ [a, b]) = eval_loop rest (st @ [f64_sub a b])"
  using stack_top2[of st a b] by (simp add: not_number_ops isOperator_def Let_def)

lemma eval_loop_mul:
  "eval_loop (''*'' # rest) (st @ [a, b]) = eval_loop rest (st @ [f64_mul a b])"
  using stack_top2[of st a b] by (simp add: not_number_ops isOperator_def Let_def)

lemma eval_loop_div:
  "eval_loop (''/'' # rest) (st @ [a, b]) =
     (if is_zero b then Inl ErrDivisionByZero else eval_loop rest (st @ [f64_div a b]))"
  using stack_top2[of st a b] by (simp add: not_number_ops isOperator_def Let_def)

lemma eval_loop_underflow:
  "isOperator t \<Longrightarrow> length st < 2 \<Longrightarrow> eval_loop (t # rest) st = Inl ErrInvalidExpression"
  by (auto simp: isOperator_def not_number_ops)

lemma eval_loop_other:
  "\<not> isNumber t \<Longrightarrow> \<not> isOperator t \<Longrightarrow> eval_loop (t # rest) st = Inl ErrInvalidExpression"
  by simp


lemma eval_loop_append:
  "eval_loop (xs @ ys) st =
     (case eval_loop xs st of Inl err \<Rightarrow> Inl err | Inr st' \<Rightarrow> eval_loop ys st')"
proof (induction xs st rule: eval_loop.induct)
  case (1 st)
  then show ?case by simp
next
  case (2 token postfix st)
  then show ?case by (simp add: Let_def)
qed

subsection \<open>Claims about precedence and associativity\<close>

lemma convert3:
  assumes "isNumber a" "isNumber b" "isNumber c" "isOperator o1" "isOperator o2"
  shows "infixToPostfix [a, o1, b, o2, c] =
     Inr (if precedence o2 \<le> precedence o1 then [a, b, o1, c, o2] else [a, b, c, o2, o1])"
  using assms by (auto simp: isOperator_def infixToPostfix_def precedence_def not_number_ops)


text \<open>
  Claim C4.  Operators of the same precedence group to the left: an incoming operator
  first pops every stacked operator of greater or equal precedence, so \<open>a o1 b o2 c\<close>
  with \<open>precedence o1 \<ge> precedence o2\<close> becomes the postfix \<open>a b o1 c o2\<close>; the evaluator
  applies an operator to the two topmost values \<open>a\<close>, \<open>b\<close> as \<open>a op b\<close>, where \<open>b\<close> is the
  value pushed last.  \<^verbatim>\<open>Calc("8-3-2")\<close> is 3 and \<^verbatim>\<open>Calc("8/4/2")\<close> is 1.
\<close>

theorem C4_left_associative:
  "(isNumber a \<and> isNumber b \<and> isNumber c \<and> isOperator o1 \<and> isOperator o2
      \<and> precedence o2 \<le> precedence o1
    \<longrightarrow> infixToPostfix [a, o1, b, o2, c] = Inr [a, b, o1, c, o2])
   \<and> eval_loop (''-'' # rest) (st @ [x, y]) = eval_loop rest (st @ [f64_sub x y])
   \<and> eval_loop (''/'' # rest) (st @ [x, y]) =
       (if is_zero y then Inl ErrDivisionByZero else eval_loop rest (st @ [f64_div x y]))
   \<and> Calc ''8-3-2'' = Inr (Finite False 3)
   \<and> Calc ''8/4/2'' = Inr (Finite False 1)"
proof -
  have conc: "Calc ''8-3-2'' = Inr (Finite False 3)" "Calc ''8/4/2'' = Inr (Finite False 1)"
    by (simp_all add: calc_eval)
  have grp: "isNumber a \<and> isNumber b \<and> isNumber c \<and> isOperator o1 \<and> isOperator o2
      \<and> precedence o2 \<le> precedence o1
    \<longrightarrow> infixToPostfix [a, o1, b, o2, c] = Inr [a, b, o1, c, o2]"
    using convert3[of a b c o1 o2] by simp
  show ?thesis
    by (intro conjI grp eval_loop_sub eval_loop_div conc)
qed

theorem C4_left_associative_witness:
  "isNumber ''8'' \<and> isNumber ''3'' \<and> isNumber ''2'' \<and> isOperator ''-''
   \<and> precedence ''-'' \<le> precedence ''-''
   \<and> infixToPostfix [''8'', ''-'', ''3'', ''-'', ''2''] = Inr [''8'', ''3'', ''-'', ''2'', ''-'']
   \<and> evaluatePostfix [''8'', ''3'', ''-'', ''2'', ''-''] = Inr (Finite False 3)"
  using C4_left_associative[of "''8''" "''3''" "''2''" "''-''" "''-''" "[]" "[]"]
  by (simp add: calc_eval)

text \<open>
  Claim C5.  The precedence table maps \<^verbatim>\<open>+\<close> and \<^verbatim>\<open>-\<close> to 1 and \<^verbatim>\<open>*\<close> and \<^verbatim>\<open>/\<close> to 2, and
  nothing makes an operator right-associative: an operator of higher precedence after
  one of lower precedence is applied first (\<open>a b c o2 o1\<close>), in every other case the
  left operator is applied first.  \<^verbatim>\<open>Calc("1+2*3")\<close> is 7 and \<^verbatim>\<open>Calc("(1+2)*3")\<close> is 9.
\<close>

theorem C5_precedence:
  "precedence ''+'' = 1 \<and> precedence ''-'' = 1 \<and> precedence ''*'' = 2 \<and> precedence ''/'' = 2
   \<and> (isNumber a \<and> isNumber b \<and> isNumber c \<and> isOperator o1 \<and> isOperator o2
      \<longrightarrow> infixToPostfix [a, o1, b, o2, c] =
          Inr (if precedence o1 < precedence o2 then [a, b, c, o2, o1] else [a, b, o1, c, o2]))
   \<and> Calc ''1+2*3'' = Inr (Finite False 7)
   \<and> Calc ''(1+2)*3'' = Inr (Finite False 9)"
proof -
  have conc: "Calc ''1+2*3'' = Inr (Finite False 7)" "Calc ''(1+2)*3'' = Inr (Finite False 9)"
    by (simp_all add: calc_eval)
  have tab: "precedence ''+'' = 1" "precedence ''-'' = 1" "precedence ''*'' = 2" "precedence ''/'' = 2"
    by (simp_all add: precedence_def)
  have grp: "isNumber a \<and> isNumber b \<and> isNumber c \<and> isOperator o1 \<and> isOperator o2
      \<longrightarrow> infixToPostfix [a, o1, b, o2, c] =
          Inr (if precedence o1 < precedence o2 then [a, b, c, o2, o1] else [a, b, o1, c, o2])"
    using convert3[of a b c o1 o2] by auto
  show ?thesis
    by (intro conjI grp tab conc)
qed

theorem C5_precedence_witness:
  "isNumber ''1'' \<and> isNumber ''2'' \<and> isNumber ''3'' \<and> isOperator ''+'' \<and> isOperator ''*''
   \<and> precedence ''+'' < precedence ''*''
   \<and> infixToPostfix [''1'', ''+'', ''2'', ''*'', ''3''] = Inr [''1'', ''2'', ''3'', ''*'', ''+'']
   \<and> infixToPostfix [''1'', ''*'', ''2'', ''+'', ''3''] = Inr [''1'', ''2'', ''*'', ''3'', ''+'']"
  using C5_precedence[of "''1''" "''2''" "''3''" "''+''" "''*''"]
    C5_precedence[of "''1''" "''2''" "''3''" "''*''" "''+''"]
  by (simp add: calc_eval)


subsection \<open>Claims about the evaluator\<close>

lemma is_zero_iff: "is_zero b \<longleftrightarrow> b = Finite False 0 \<or> b = Finite True 0"
  by (cases b) auto

text \<open>
  Claim C7.  When the evaluator reaches a \<^verbatim>\<open>/\<close> whose right-hand operand \<open>b\<close> (the top of
  the stack) compares equal to zero, \<^verbatim>\<open>evaluatePostfix\<close> fails with \<^verbatim>\<open>ErrDivisionByZero\<close>
  whatever follows; the test is exact: it holds of \<open>+0\<close> and \<open>-0\<close> only, and for any
  other \<open>b\<close> the quotient is pushed and the loop goes on.  \<^verbatim>\<open>Calc("5/0")\<close> fails with
  \<^verbatim>\<open>ErrDivisionByZero\<close>.
\<close>

theorem C7_division_by_zero:
  assumes "eval_loop pre [] = Inr (st @ [a, b])"
  shows "(is_zero b \<longrightarrow> evaluatePostfix (pre @ ''/'' # rest) = Inl ErrDivisionByZero)
    \<and> (\<not> is_zero b \<longrightarrow>
          eval_loop (pre @ ''/'' # rest) [] = eval_loop rest (st @ [f64_div a b]))
    \<and> (is_zero b \<longleftrightarrow> b = Finite False 0 \<or> b = Finite True 0)
    \<and> Calc ''5/0'' = Inl ErrDivisionByZero"
proof -
  have step: "eval_loop (pre @ ''/'' # rest) [] =
      (if is_zero b then Inl ErrDivisionByZero else eval_loop rest (st @ [f64_div a b]))"
    by (simp only: eval_loop_append assms sum.case eval_loop_div)
  have z: "is_zero b \<longrightarrow> evaluatePostfix (pre @ ''/'' # rest) = Inl ErrDivisionByZero"
    by (simp add: evaluatePostfix_def step)
  have nz: "\<not> is_zero b \<longrightarrow>
      eval_loop (pre @ ''/'' # rest) [] = eval_loop rest (st @ [f64_div a b])"
    by (simp add: step)
  have conc: "Calc ''5/0'' = Inl ErrDivisionByZero"
    by (simp add: calc_eval)
  show ?thesis
    by (intro conjI z nz is_zero_iff conc)
qed

theorem C7_division_by_zero_witness:
  "eval_loop [''5'', ''0''] [] = Inr ([] @ [Finite False 5, Finite False 0])
   \<and> is_zero (Finite False 0)
   \<and> evaluatePostfix ([''5'', ''0''] @ ''/'' # [''7'']) = Inl ErrDivisionByZero
   \<and> eval_loop [''5'', ''2''] [] = Inr ([] @ [Finite False 5, Finite False 2])
   \<and> \<not> is_zero (Finite False 2)
   \<and> eval_loop ([''5'', ''2''] @ ''/'' # []) [] = Inr [Finite False (5 / 2)]"
proof -
  have h0: "eval_loop [''5'', ''0''] [] = Inr ([] @ [Finite False 5, Finite False 0])"
    by (simp add: calc_eval)
  have h2: "eval_loop [''5'', ''2''] [] = Inr ([] @ [Finite False 5, Finite False 2])"
    by (simp add: calc_eval)
  have q: "f64_div (Finite False 5) (Finite False 2) = Finite False (5 / 2)"
    using round64_representable[of 5 "- 1" False] by (simp add: pow2_def)
  show ?thesis
    using C7_division_by_zero[OF h0, of "[''7'']"] C7_division_by_zero[OF h2, of "[]"] h0 h2 q
    by simp
qed

text \<open>
  Claim C8.  An operator met when the value stack holds fewer than two values makes
  \<^verbatim>\<open>evaluatePostfix\<close> fail with \<^verbatim>\<open>ErrInvalidExpression\<close>; and when the loop has consumed
  every token, the result is the single value on the stack, or \<^verbatim>\<open>ErrInvalidExpression\<close>
  when the stack is empty or holds more than one value.
\<close>

theorem C8_stack_discipline:
  "(isOperator t \<and> eval_loop pre [] = Inr st \<and> length st < 2
      \<longrightarrow> evaluatePostfix (pre @ t # rest) = Inl ErrInvalidExpression)
   \<and> (eval_loop postfix [] = Inr st
      \<longrightarrow> evaluatePostfix postfix =
          (if length st = 1 then Inr (st ! 0) else Inl ErrInvalidExpression))"
proof -
  have a: "isOperator t \<and> eval_loop pre [] = Inr st \<and> length st < 2
      \<longrightarrow> evaluatePostfix (pre @ t # rest) = Inl ErrInvalidExpression"
    by (simp add: evaluatePostfix_def eval_loop_append eval_loop_underflow del: eval_loop.simps)
  have b: "eval_loop postfix [] = Inr st
      \<longrightarrow> evaluatePostfix postfix =
          (if length st = 1 then Inr (st ! 0) else Inl ErrInvalidExpression)"
    by (simp add: evaluatePostfix_def)
  show ?thesis by (intro conjI a b)
qed

theorem C8_stack_discipline_witness:
  "isOperator ''+'' \<and> eval_loop [''1''] [] = Inr [Finite False 1] \<and> length [Finite False 1] < 2
   \<and> evaluatePostfix ([''1''] @ ''+'' # [''2'']) = Inl ErrInvalidExpression
   \<and> eval_loop [''1'', ''2''] [] = Inr [Finite False 1, Finite False 2]
   \<and> evaluatePostfix [''1'', ''2''] = Inl ErrInvalidExpression
   \<and> eval_loop [] [] = Inr []
   \<and> evaluatePostfix [] = Inl ErrInvalidExpression
   \<and> evaluatePostfix [''1''] = Inr (Finite False 1)"
proof -
  have h1: "eval_loop [''1''] [] = Inr [Finite False 1]" by (simp add: calc_eval)
  have h2: "eval_loop [''1'', ''2''] [] = Inr [Finite False 1, Finite False 2]"
    by (simp add: calc_eval)
  have h0: "eval_loop [] [] = Inr ([] :: float64 list)" by simp
  have op: "isOperator ''+''" by (simp add: isOperator_def)
  show ?thesis
    using C8_stack_discipline[where t = "''+''" and pre = "[''1'']" and st = "[Finite False 1]"
        and rest = "[''2'']" and postfix = "[''1'']"]
      C8_stack_discipline[where st = "[Finite False 1, Finite False 2]" and postfix = "[''1'', ''2'']"]
      C8_stack_discipline[where st = "[]" and postfix = "[]"]
      h1 h2 h0 op
    by simp
qed


subsection \<open>The tokenizer\<close>

lemma tokenize_loop_space:
  "tokenize_loop (CHR '' '' # s) tokens cur = tokenize_loop s tokens cur"
  by simp

lemma tokenize_loop_delimiter:
  "delimiter c \<Longrightarrow>
     tokenize_loop (c # s) tokens cur =
       tokenize_loop s ((if cur = [] then tokens else tokens @ [cur]) @ [[c]]) []"
  by (auto simp: delimiter_def)

lemma tokenize_loop_other:
  "c \<noteq> CHR '' '' \<Longrightarrow> \<not> delimiter c \<Longrightarrow>
     tokenize_loop (c # s) tokens cur = tokenize_loop s tokens (cur @ [c])"
  by (simp add: delimiter_def)

lemma delimiter_not_space: "delimiter c \<Longrightarrow> c \<noteq> CHR '' ''"
  by (auto simp: delimiter_def)

lemmas tokenize_step = tokenize_loop.simps(1) tokenize_loop_space tokenize_loop_delimiter
  tokenize_loop_other delimiter_not_space

lemma tokenize_loop_append:
  "tokenize_loop (xs @ ys) tokens cur =
     (case tokenize_loop xs tokens cur of (tokens', cur') \<Rightarrow> tokenize_loop ys tokens' cur')"
proof (induction xs arbitrary: tokens cur)
  case Nil
  then show ?case by simp
next
  case (Cons c xs)
  consider "c = CHR '' ''" | "delimiter c" | "c \<noteq> CHR '' ''" "\<not> delimiter c" by blast
  then show ?case
  proof cases
    case 1
    then show ?thesis using Cons.IH by (simp del: tokenize_loop.simps add: tokenize_step)
  next
    case 2
    then show ?thesis using Cons.IH by (simp del: tokenize_loop.simps add: tokenize_step)
  next
    case 3
    then show ?thesis using Cons.IH by (simp del: tokenize_loop.simps add: tokenize_step)
  qed
qed

lemma tokenize_loop_no_space:
  "tokenize_loop (filter (\<lambda>c. c \<noteq> CHR '' '') s) tokens cur = tokenize_loop s tokens cur"
proof (induction s arbitrary: tokens cur)
  case Nil
  then show ?case by simp
next
  case (Cons c s)
  consider "c = CHR '' ''" | "delimiter c" | "c \<noteq> CHR '' ''" "\<not> delimiter c" by blast
  then show ?case
  proof cases
    case 1
    then show ?thesis using Cons.IH by (simp del: tokenize_loop.simps add: tokenize_step)
  next
    case 2
    then show ?thesis
      using Cons.IH delimiter_not_space[OF 2] by (simp del: tokenize_loop.simps add: tokenize_step)
  next
    case 3
    then show ?thesis using Cons.IH by (simp del: tokenize_loop.simps add: tokenize_step)
  qed
qed

lemma tokenize_loop_spaces:
  "tokenize_loop (replicate n (CHR '' '')) tokens cur = (tokens, cur)"
  by (induction n) simp_all

lemma tokenize_loop_run:
  "\<forall>c \<in> set w. c \<noteq> CHR '' '' \<and> \<not> delimiter c \<Longrightarrow>
     tokenize_loop w tokens cur = (tokens, cur @ w)"
proof (induction w arbitrary: cur)
  case Nil
  then show ?case by simp
next
  case (Cons c w)
  have c: "c \<noteq> CHR '' ''" "\<not> delimiter c" using Cons.prems by simp_all
  have "tokenize_loop (c # w) tokens cur = tokenize_loop w tokens (cur @ [c])"
    by (rule tokenize_loop_other[OF c])
  then show ?case using Cons by simp
qed


lemma tokenize_loop_tokens:
  assumes "tokenize_loop s tokens cur = (tokens', cur')"
    and "\<forall>t \<in> set tokens. CHR '' '' \<notin> set t" and "CHR '' '' \<notin> set cur"
  shows "(\<forall>t \<in> set tokens'. CHR '' '' \<notin> set t) \<and> CHR '' '' \<notin> set cur'"
  using assms
proof (induction s arbitrary: tokens cur)
  case Nil
  then show ?case by simp
next
  case (Cons c s)
  consider "c = CHR '' ''" | "delimiter c" | "c \<noteq> CHR '' ''" "\<not> delimiter c" by blast
  then show ?case
  proof cases
    case 1
    then have "tokenize_loop s tokens cur = (tokens', cur')"
      using Cons.prems(1) by (simp del: tokenize_loop.simps add: tokenize_step)
    then show ?thesis using Cons.IH Cons.prems(2,3) by blast
  next
    case 2
    define tk where "tk = (if cur = [] then tokens else tokens @ [cur]) @ [[c]]"
    have "tokenize_loop s tk [] = (tokens', cur')"
      using Cons.prems(1) 2 by (simp del: tokenize_loop.simps add: tokenize_step tk_def)
    moreover have "\<forall>t \<in> set tk. CHR '' '' \<notin> set t"
      using Cons.prems(2,3) delimiter_not_space[OF 2] by (simp add: tk_def)
    moreover have "CHR '' '' \<notin> set []" by simp
    ultimately show ?thesis using Cons.IH by blast
  next
    case 3
    have "tokenize_loop s tokens (cur @ [c]) = (tokens', cur')"
      using Cons.prems(1) 3 by (simp del: tokenize_loop.simps add: tokenize_step)
    moreover have "CHR '' '' \<notin> set (cur @ [c])" using Cons.prems(3) 3 by simp
    ultimately show ?thesis using Cons.IH Cons.prems(2) by blast
  qed
qed

lemma tokenize_no_space: "tokenize s = tokenize (filter (\<lambda>c. c \<noteq> CHR '' '') s)"
  by (simp add: tokenize_def tokenize_loop_no_space)

lemma tokenize_tokens_no_space: "\<forall>t \<in> set (tokenize s). CHR '' '' \<notin> set t"
proof -
  obtain tokens cur where r: "tokenize_loop s [] [] = (tokens, cur)"
    by (cases "tokenize_loop s [] []")
  from tokenize_loop_tokens[OF r] show ?thesis by (auto simp: tokenize_def r)
qed

subsection \<open>The validator\<close>

lemma isValidExpression_iff:
  "isValidExpression s \<longleftrightarrow> (\<forall>c \<in> set s. is_digit c \<or> c \<in> set ''+-*/() '')"
  by (induction s) (auto simp: ContainsRune_def is_digit_def)

lemma isValidExpression_no_space:
  "isValidExpression (filter (\<lambda>c. c \<noteq> CHR '' '') s) = isValidExpression s"
  by (induction s) (simp_all add: ContainsRune_def)

lemma TrimSpace_Nil_iff: "TrimSpace s = [] \<longleftrightarrow> (\<forall>c \<in> set s. isSpace c)"
proof
  assume "TrimSpace s = []"
  then have all: "\<forall>x \<in> set (dropWhile isSpace s). isSpace x"
    by (simp add: TrimSpace_def dropWhile_eq_Nil_conv)
  have "dropWhile isSpace s = []"
  proof (rule ccontr)
    assume ne: "dropWhile isSpace s \<noteq> []"
    then have "\<not> isSpace (hd (dropWhile isSpace s))" by (rule hd_dropWhile)
    moreover have "hd (dropWhile isSpace s) \<in> set (dropWhile isSpace s)" using ne by simp
    ultimately show False using all by blast
  qed
  then show "\<forall>c \<in> set s. isSpace c" by (simp add: dropWhile_eq_Nil_conv)
next
  assume "\<forall>c \<in> set s. isSpace c"
  then have d: "dropWhile isSpace s = []" by (simp add: dropWhile_eq_Nil_conv)
  show "TrimSpace s = []" by (simp only: TrimSpace_def d rev.simps dropWhile.simps)
qed

lemma valid_space: "is_digit c \<or> c \<in> set ''+-*/() '' \<Longrightarrow> isSpace c \<longleftrightarrow> c = CHR '' ''"
  by (auto simp: isSpace_def is_digit_iff)

lemma TrimSpace_no_space:
  assumes "isValidExpression s"
  shows "TrimSpace (filter (\<lambda>c. c \<noteq> CHR '' '') s) = [] \<longleftrightarrow> TrimSpace s = []"
proof -
  have v: "\<And>c. c \<in> set s \<Longrightarrow> (isSpace c \<longleftrightarrow> c = CHR '' '')"
    using assms valid_space by (simp add: isValidExpression_iff)
  show ?thesis unfolding TrimSpace_Nil_iff using v by auto
qed

lemma Calc_no_space: "Calc (filter (\<lambda>c. c \<noteq> CHR '' '') s) = Calc s"
proof (cases "isValidExpression s")
  case True
  then show ?thesis
    by (simp add: Calc_def isValidExpression_no_space TrimSpace_no_space tokenize_no_space[of s])
next
  case False
  then show ?thesis by (simp add: Calc_def isValidExpression_no_space)
qed


lemma isValidExpression_alphabet:
  "isValidExpression s \<longleftrightarrow> set s \<subseteq> set ''0123456789+-*/() ''"
proof -
  have "\<And>c. (is_digit c \<or> c \<in> set ''+-*/() '') \<longleftrightarrow> c \<in> set ''0123456789+-*/() ''"
    by (auto simp: is_digit_iff)
  then show ?thesis by (auto simp: isValidExpression_iff simp del: set_simps)
qed

subsection \<open>Claims about validation and white space\<close>

text \<open>
  Claim C2, as the code has it.  The validation stage of \<^verbatim>\<open>Calc\<close> fails with
  \<^verbatim>\<open>ErrInvalidExpression\<close> if and only if the text is empty once white space is trimmed from
  both ends, or some character of the text is not one of: the digits 0-9, the four
  operator characters, the two parentheses, or a space.  The decimal point is not in
  the alphabet.  Every other text is passed unchanged to \<^verbatim>\<open>tokenize\<close>.
\<close>

theorem C2_validation:
  "((TrimSpace s = [] \<or> \<not> isValidExpression s)
      \<longleftrightarrow> (TrimSpace s = [] \<or> (\<exists>c \<in> set s. c \<notin> set ''0123456789+-*/() '')))
   \<and> Calc s =
       (if TrimSpace s = [] \<or> (\<exists>c \<in> set s. c \<notin> set ''0123456789+-*/() '')
        then Inl ErrInvalidExpression
        else case infixToPostfix (tokenize s) of
               Inl err \<Rightarrow> Inl err
             | Inr postfix \<Rightarrow> evaluatePostfix postfix)
   \<and> Calc [] = Inl ErrInvalidExpression
   \<and> Calc ''   '' = Inl ErrInvalidExpression
   \<and> Calc ''1+a'' = Inl ErrInvalidExpression"
proof -
  have v: "isValidExpression s \<longleftrightarrow> \<not> (\<exists>c \<in> set s. c \<notin> set ''0123456789+-*/() '')"
    unfolding isValidExpression_alphabet by blast
  have a: "(TrimSpace s = [] \<or> \<not> isValidExpression s)
      \<longleftrightarrow> (TrimSpace s = [] \<or> (\<exists>c \<in> set s. c \<notin> set ''0123456789+-*/() ''))"
    unfolding v by blast
  have b: "Calc s =
       (if TrimSpace s = [] \<or> (\<exists>c \<in> set s. c \<notin> set ''0123456789+-*/() '')
        then Inl ErrInvalidExpression
        else case infixToPostfix (tokenize s) of
               Inl err \<Rightarrow> Inl err
             | Inr postfix \<Rightarrow> evaluatePostfix postfix)"
    unfolding Calc_def v Let_def by (simp del: set_simps)
  have c: "Calc [] = Inl ErrInvalidExpression" "Calc ''   '' = Inl ErrInvalidExpression"
    "Calc ''1+a'' = Inl ErrInvalidExpression"
    by (simp_all add: Calc_def TrimSpace_def isSpace_def ContainsRune_def less_eq_char_def)
  show ?thesis by (intro conjI a b c)
qed

theorem C2_validation_witness:
  "TrimSpace ''1+2'' \<noteq> [] \<and> isValidExpression ''1+2''
   \<and> Calc ''1+2'' = (case infixToPostfix (tokenize ''1+2'') of
                        Inl err \<Rightarrow> Inl err | Inr postfix \<Rightarrow> evaluatePostfix postfix)
   \<and> TrimSpace ''1+2.'' \<noteq> [] \<and> \<not> isValidExpression ''1+2.''
   \<and> Calc ''1+2.'' = Inl ErrInvalidExpression"
  using C2_validation[of "''1+2''"] C2_validation[of "''1+2.''"]
  by (simp add: TrimSpace_def isSpace_def ContainsRune_def less_eq_char_def)

theorem C2_counterexample:
  "TrimSpace ''1.5'' \<noteq> [] \<and> set ''1.5'' \<subseteq> set ''0123456789.+-*/() ''
   \<and> \<not> isValidExpression ''1.5'' \<and> Calc ''1.5'' = Inl ErrInvalidExpression"
  by (simp add: Calc_def TrimSpace_def isSpace_def ContainsRune_def less_eq_char_def)

text \<open>
  Claim C9.  Spaces never reach a token: \<^verbatim>\<open>tokenize\<close> gives the same tokens for a text and
  for the text without its spaces, and no token contains a space; hence \<^verbatim>\<open>Calc\<close> gives the
  same result for both, and \<^verbatim>\<open>Calc("1 + 2")\<close> and \<^verbatim>\<open>Calc("1+2")\<close> are both 3.
\<close>

theorem C9_whitespace_insensitive:
  "tokenize s = tokenize (filter (\<lambda>c. c \<noteq> CHR '' '') s)
   \<and> (\<forall>t \<in> set (tokenize s). CHR '' '' \<notin> set t)
   \<and> Calc s = Calc (filter (\<lambda>c. c \<noteq> CHR '' '') s)
   \<and> Calc ''1 + 2'' = Inr (Finite False 3)
   \<and> Calc ''1+2'' = Inr (Finite False 3)"
proof -
  have c: "Calc ''1 + 2'' = Inr (Finite False 3)" "Calc ''1+2'' = Inr (Finite False 3)"
    by (simp_all add: calc_eval)
  show ?thesis
    by (intro conjI tokenize_no_space tokenize_tokens_no_space Calc_no_space[symmetric] c)
qed

theorem C9_whitespace_insensitive_witness:
  "tokenize '' 12 +  3 '' = [''12'', ''+'', ''3'']
   \<and> tokenize ''12+3'' = [''12'', ''+'', ''3'']
   \<and> Calc '' 12 +  3 '' = Calc ''12+3''
   \<and> Calc ''12+3'' = Inr (Finite False 15)"
  using C9_whitespace_insensitive[of "'' 12 +  3 ''"]
  by (simp add: calc_eval)

text \<open>
  Claim C10.  The tokenizer skips a space without closing the literal in progress, so
  two runs of digits with only spaces between them become one number token:
  \<^verbatim>\<open>tokenize("1 2")\<close> is the single token \<^verbatim>\<open>12\<close> and \<^verbatim>\<open>Calc("1 2")\<close> succeeds with 12.
\<close>

theorem C10_space_inside_number:
  "tokenize_loop (CHR '' '' # expr) tokens cur = tokenize_loop expr tokens cur
   \<and> (xs \<noteq> [] \<and> list_all is_digit xs \<and> list_all is_digit ys
      \<longrightarrow> tokenize (xs @ replicate n (CHR '' '') @ ys) = [xs @ ys])
   \<and> tokenize ''1 2'' = [''12'']
   \<and> Calc ''1 2'' = Inr (Finite False 12)"
proof -
  have run: "xs \<noteq> [] \<and> list_all is_digit xs \<and> list_all is_digit ys
      \<longrightarrow> tokenize (xs @ replicate n (CHR '' '') @ ys) = [xs @ ys]"
  proof
    assume h: "xs \<noteq> [] \<and> list_all is_digit xs \<and> list_all is_digit ys"
    have d: "\<And>c. is_digit c \<Longrightarrow> c \<noteq> CHR '' '' \<and> \<not> delimiter c"
      using is_digit_not_special by (auto simp: delimiter_def)
    have x: "\<forall>c \<in> set xs. c \<noteq> CHR '' '' \<and> \<not> delimiter c"
      and y: "\<forall>c \<in> set ys. c \<noteq> CHR '' '' \<and> \<not> delimiter c"
      using h d by (auto simp: list_all_iff)
    have "tokenize_loop (xs @ replicate n (CHR '' '') @ ys) [] [] = ([], xs @ ys)"
      by (simp add: tokenize_loop_append tokenize_loop_run[OF x] tokenize_loop_run[OF y]
          tokenize_loop_spaces)
    then show "tokenize (xs @ replicate n (CHR '' '') @ ys) = [xs @ ys]"
      using h by (simp add: tokenize_def)
  qed
  have c: "tokenize ''1 2'' = [''12'']" "Calc ''1 2'' = Inr (Finite False 12)"
    by (simp_all add: calc_eval)
  show ?thesis by (intro conjI tokenize_loop_space run c)
qed

theorem C10_space_inside_number_witness:
  "''1'' \<noteq> [] \<and> list_all is_digit ''1'' \<and> list_all is_digit ''23''
   \<and> tokenize (''1'' @ replicate 2 (CHR '' '') @ ''23'') = [''123'']"
  using C10_space_inside_number[of "[]" "[]" "[]" "''1''" "''23''" 2]
  by (simp add: digit_eval)


subsection \<open>The converter\<close>

lemmas pop_simps = pop_to_paren.simps pop_higher.simps drain.simps

declare pop_to_paren.simps [simp del] pop_higher.simps [simp del] drain.simps [simp del]

lemma pop_to_paren_Nil [simp]: "pop_to_paren out [] = (out, [])"
  by (simp add: pop_to_paren.simps)

lemma pop_to_paren_snoc:
  "pop_to_paren out (oper @ [x]) =
     (if x = ''('' then (out, oper @ [x]) else pop_to_paren (out @ [x]) oper)"
  by (subst pop_to_paren.simps) simp

lemma pop_to_paren_all:
  "''('' \<notin> set pend \<Longrightarrow> pop_to_paren out (oper @ pend) = pop_to_paren (out @ rev pend) oper"
proof (induction pend arbitrary: out rule: rev_induct)
  case Nil
  then show ?case by simp
next
  case (snoc x xs)
  have "x \<noteq> ''(''" using snoc.prems by auto
  then have "pop_to_paren out ((oper @ xs) @ [x]) = pop_to_paren (out @ [x]) (oper @ xs)"
    by (simp only: pop_to_paren_snoc if_False)
  then show ?case using snoc by simp
qed

lemma pop_to_paren_open:
  "''('' \<notin> set pend \<Longrightarrow>
     pop_to_paren out (oper @ ''('' # pend) = (out @ rev pend, oper @ [''(''])"
  using pop_to_paren_all[of pend out "oper @ [''('']"] by (simp add: pop_to_paren_snoc)

lemma pop_to_paren_none:
  "''('' \<notin> set oper \<Longrightarrow> pop_to_paren out oper = (out @ rev oper, [])"
  using pop_to_paren_all[of oper out "[]"] by simp

lemma pop_to_paren_empty_iff:
  "snd (pop_to_paren out oper) = [] \<longleftrightarrow> ''('' \<notin> set oper"
proof (cases "''('' \<in> set oper")
  case True
  then obtain ys zs where s: "oper = ys @ ''('' # zs" "''('' \<notin> set zs"
    by (meson split_list_last)
  then show ?thesis using True by (simp add: pop_to_paren_open)
next
  case False
  then show ?thesis by (simp add: pop_to_paren_none)
qed

lemma drain_Nil [simp]: "drain out [] = Inr out"
  by (simp add: drain.simps)

lemma drain_snoc:
  "drain out (oper @ [x]) =
     (if x = ''('' then Inl ErrMismatchedParentheses else drain (out @ [x]) oper)"
  by (subst drain.simps) simp

lemma drain_eq:
  "drain out oper =
     (if ''('' \<in> set oper then Inl ErrMismatchedParentheses else Inr (out @ rev oper))"
  by (induction oper arbitrary: out rule: rev_induct) (simp_all add: drain_snoc)

lemma pop_higher_Nil [simp]: "pop_higher t out [] = (out, [])"
  by (simp add: pop_higher.simps)

lemma pop_higher_snoc:
  "pop_higher t out (oper @ [x]) =
     (if precedence t \<le> precedence x then pop_higher t (out @ [x]) oper else (out, oper @ [x]))"
  by (subst pop_higher.simps) simp

lemma pop_higher_all:
  "\<forall>x \<in> set pend. precedence t \<le> precedence x \<Longrightarrow>
     pop_higher t out (oper @ pend) = pop_higher t (out @ rev pend) oper"
proof (induction pend arbitrary: out rule: rev_induct)
  case Nil
  then show ?case by simp
next
  case (snoc x xs)
  have "precedence t \<le> precedence x" using snoc.prems by simp
  then have "pop_higher t out ((oper @ xs) @ [x]) = pop_higher t (out @ [x]) (oper @ xs)"
    by (simp only: pop_higher_snoc if_True)
  then show ?case using snoc by simp
qed

lemma pop_higher_stop:
  "oper = [] \<or> precedence (last oper) < precedence t \<Longrightarrow> pop_higher t out oper = (out, oper)"
  by (subst pop_higher.simps) auto

lemma convert_loop_append:
  "convert_loop (xs @ ys) out oper =
     (case convert_loop xs out oper of
        Inl err \<Rightarrow> Inl err
      | Inr (out', oper') \<Rightarrow> convert_loop ys out' oper')"
  by (induction xs out oper rule: convert_loop.induct) (simp_all split: prod.splits)


lemma convert_loop_Cons:
  "convert_loop (t # ts) out oper =
     (case convert_loop [t] out oper of
        Inl err \<Rightarrow> Inl err
      | Inr (out', oper') \<Rightarrow> convert_loop ts out' oper')"
  using convert_loop_append[of "[t]" ts out oper] by simp

lemma convert_step_close:
  "convert_loop ['')''] out oper =
     (if ''('' \<in> set oper
      then Inr (fst (pop_to_paren out oper), butlast (snd (pop_to_paren out oper)))
      else Inl ErrMismatchedParentheses)"
proof -
  obtain o1 s1 where p: "pop_to_paren out oper = (o1, s1)" by (cases "pop_to_paren out oper")
  have "s1 = [] \<longleftrightarrow> ''('' \<notin> set oper" using pop_to_paren_empty_iff[of out oper] p by simp
  then show ?thesis by (simp add: not_number_ops p)
qed

lemma convert_step_number:
  "isNumber t \<Longrightarrow> convert_loop [t] out oper = Inr (out @ [t], oper)"
  by simp

lemma convert_step_open:
  "convert_loop [''(''] out oper = Inr (out, oper @ [''(''])"
  by (simp add: not_number_ops)

lemma convert_step_operator:
  "isOperator t \<Longrightarrow>
     convert_loop [t] out oper =
       Inr (fst (pop_higher t out oper), snd (pop_higher t out oper) @ [t])"
  by (auto simp: isOperator_def not_number_ops split: prod.splits)

lemma convert_step_other:
  "\<not> isNumber t \<Longrightarrow> t \<noteq> ''('' \<Longrightarrow> t \<noteq> '')'' \<Longrightarrow> \<not> isOperator t \<Longrightarrow>
     convert_loop [t] out oper = Inl ErrInvalidExpression"
  by simp

lemmas conv_eval = pop_simps convert_loop.simps

declare convert_loop.simps(2) [simp del]

lemma convert_step_mismatch:
  "convert_loop [t] out oper = Inl ErrMismatchedParentheses \<longleftrightarrow> t = '')'' \<and> ''('' \<notin> set oper"
proof (cases "t = '')''")
  case True
  then show ?thesis by (simp only: convert_step_close) simp
next
  case False
  then show ?thesis by (simp add: convert_loop.simps split: prod.splits)
qed

lemma convert_loop_mismatch:
  "convert_loop tokens out oper = Inl ErrMismatchedParentheses \<longleftrightarrow>
     (\<exists>pre post out' oper'. tokens = pre @ '')'' # post
        \<and> convert_loop pre out oper = Inr (out', oper') \<and> ''('' \<notin> set oper')"
proof
  assume "convert_loop tokens out oper = Inl ErrMismatchedParentheses"
  then show "\<exists>pre post out' oper'. tokens = pre @ '')'' # post
        \<and> convert_loop pre out oper = Inr (out', oper') \<and> ''('' \<notin> set oper'"
  proof (induction tokens arbitrary: out oper)
    case Nil
    then show ?case by simp
  next
    case (Cons t ts)
    show ?case
    proof (cases "convert_loop [t] out oper")
      case (Inl e)
      then have "e = ErrMismatchedParentheses"
        using Cons.prems by (simp add: convert_loop_Cons[of t ts])
      then have "t = '')''" "''('' \<notin> set oper"
        using Inl convert_step_mismatch by blast+
      then have "t # ts = [] @ '')'' # ts \<and> convert_loop [] out oper = Inr (out, oper)
          \<and> ''('' \<notin> set oper"
        by simp
      then show ?thesis by blast
    next
      case (Inr r)
      obtain o1 s1 where r: "r = (o1, s1)" by (cases r)
      have "convert_loop ts o1 s1 = Inl ErrMismatchedParentheses"
        using Cons.prems Inr r by (simp add: convert_loop_Cons[of t ts])
      from Cons.IH[OF this] obtain pre post out' oper' where
        p: "ts = pre @ '')'' # post" "convert_loop pre o1 s1 = Inr (out', oper')"
          "''('' \<notin> set oper'"
        by blast
      have "convert_loop (t # pre) out oper = Inr (out', oper')"
        using p(2) Inr r by (simp add: convert_loop_Cons[of t pre])
      then have "t # ts = (t # pre) @ '')'' # post
          \<and> convert_loop (t # pre) out oper = Inr (out', oper') \<and> ''('' \<notin> set oper'"
        using p by simp
      then show ?thesis by blast
    qed
  qed
next
  assume "\<exists>pre post out' oper'. tokens = pre @ '')'' # post
        \<and> convert_loop pre out oper = Inr (out', oper') \<and> ''('' \<notin> set oper'"
  then obtain pre post out' oper' where
    p: "tokens = pre @ '')'' # post" "convert_loop pre out oper = Inr (out', oper')"
      "''('' \<notin> set oper'"
    by blast
  have "convert_loop ('')'' # post) out' oper' = Inl ErrMismatchedParentheses"
    using p(3) by (simp add: convert_loop_Cons[of "'')''" post] convert_step_close)
  then show "convert_loop tokens out oper = Inl ErrMismatchedParentheses"
    by (simp add: p(1,2) convert_loop_append)
qed


subsection \<open>Claims about malformed input\<close>

text \<open>
  Claim C6.  \<^verbatim>\<open>infixToPostfix\<close> fails with \<^verbatim>\<open>ErrMismatchedParentheses\<close> exactly in two
  cases: the loop reaches a \<^verbatim>\<open>")"\<close> while the operator stack holds no \<^verbatim>\<open>"("\<close> (popping
  then empties the stack), or the loop consumes every token and a \<^verbatim>\<open>"("\<close> is still on
  the stack.  \<^verbatim>\<open>Calc\<close> fails so on \<^verbatim>\<open>")1+2("\<close>, \<^verbatim>\<open>"(1+2"\<close> and \<^verbatim>\<open>"1+2)"\<close>.
\<close>

theorem C6_mismatched_parentheses:
  "(infixToPostfix tokens = Inl ErrMismatchedParentheses \<longleftrightarrow>
      (\<exists>pre post out oper. tokens = pre @ '')'' # post
         \<and> convert_loop pre [] [] = Inr (out, oper) \<and> ''('' \<notin> set oper)
      \<or> (\<exists>out oper. convert_loop tokens [] [] = Inr (out, oper) \<and> ''('' \<in> set oper))
   \<and> Calc '')1+2('' = Inl ErrMismatchedParentheses
   \<and> Calc ''(1+2'' = Inl ErrMismatchedParentheses
   \<and> Calc ''1+2)'' = Inl ErrMismatchedParentheses"
proof -
  let ?close = "\<exists>pre post out oper. tokens = pre @ '')'' # post
         \<and> convert_loop pre [] [] = Inr (out, oper) \<and> ''('' \<notin> set oper"
  let ?open = "\<exists>out oper. convert_loop tokens [] [] = Inr (out, oper) \<and> ''('' \<in> set oper"
  have iff: "infixToPostfix tokens = Inl ErrMismatchedParentheses \<longleftrightarrow> ?close \<or> ?open"
  proof (cases "convert_loop tokens [] []")
    case (Inl e)
    then have "\<not> ?open" by simp
    moreover have "infixToPostfix tokens = Inl ErrMismatchedParentheses \<longleftrightarrow> ?close"
      using convert_loop_mismatch[of tokens "[]" "[]"] Inl by (simp add: infixToPostfix_def)
    ultimately show ?thesis by blast
  next
    case (Inr r)
    obtain out oper where r: "r = (out, oper)" by (cases r)
    have "\<not> ?close" using convert_loop_mismatch[of tokens "[]" "[]"] Inr by simp
    moreover have "infixToPostfix tokens = Inl ErrMismatchedParentheses \<longleftrightarrow> ?open"
      using Inr r by (simp add: infixToPostfix_def drain_eq)
    ultimately show ?thesis by blast
  qed
  have c: "Calc '')1+2('' = Inl ErrMismatchedParentheses"
    "Calc ''(1+2'' = Inl ErrMismatchedParentheses"
    "Calc ''1+2)'' = Inl ErrMismatchedParentheses"
    by (simp_all add: calc_eval conv_eval)
  show ?thesis by (intro conjI iff c)
qed

theorem C6_mismatched_parentheses_witness:
  "convert_loop [''('', ''1'', ''+'', ''2''] [] [] = Inr ([''1'', ''2''], [''('', ''+''])
   \<and> infixToPostfix [''('', ''1'', ''+'', ''2''] = Inl ErrMismatchedParentheses
   \<and> convert_loop [''1'', ''+'', ''2''] [] [] = Inr ([''1'', ''2''], [''+''])
   \<and> infixToPostfix ([''1'', ''+'', ''2''] @ '')'' # [''3'']) = Inl ErrMismatchedParentheses
   \<and> infixToPostfix [''('', ''1'', '')''] \<noteq> Inl ErrMismatchedParentheses"
proof -
  have a: "convert_loop [''('', ''1'', ''+'', ''2''] [] [] = Inr ([''1'', ''2''], [''('', ''+''])"
    by (simp add: calc_eval conv_eval)
  have b: "convert_loop [''1'', ''+'', ''2''] [] [] = Inr ([''1'', ''2''], [''+''])"
    by (simp add: calc_eval conv_eval)
  have c: "infixToPostfix [''('', ''1'', '')''] \<noteq> Inl ErrMismatchedParentheses"
    by (simp add: calc_eval conv_eval)
  have a': "\<exists>out oper. convert_loop [''('', ''1'', ''+'', ''2''] [] [] = Inr (out, oper)
      \<and> ''('' \<in> set oper"
    using a by simp
  have b': "\<exists>pre post out oper. [''1'', ''+'', ''2''] @ '')'' # [''3''] = pre @ '')'' # post
         \<and> convert_loop pre [] [] = Inr (out, oper) \<and> ''('' \<notin> set oper"
    using b by (intro exI[of _ "[''1'', ''+'', ''2'']"] exI[of _ "[''3'']"] exI[of _ "[''1'', ''2'']"]
        exI[of _ "[''+'']"]) simp
  show ?thesis
    using C6_mismatched_parentheses[of "[''('', ''1'', ''+'', ''2'']"]
      C6_mismatched_parentheses[of "[''1'', ''+'', ''2''] @ '')'' # [''3'']"] a b c a' b'
    by blast
qed


lemma convert_step_kind:
  "convert_loop [t] out oper = Inr r \<Longrightarrow> isNumber t \<or> t = ''('' \<or> t = '')'' \<or> isOperator t"
  using convert_step_other[of t out oper] by auto

lemma convert_loop_kinds:
  "convert_loop tokens out oper = Inr r \<Longrightarrow>
     \<forall>t \<in> set tokens. isNumber t \<or> t = ''('' \<or> t = '')'' \<or> isOperator t"
proof (induction tokens arbitrary: out oper)
  case Nil
  then show ?case by simp
next
  case (Cons t ts)
  from Cons.prems obtain o1 s1 where
    st: "convert_loop [t] out oper = Inr (o1, s1)" and rest: "convert_loop ts o1 s1 = Inr r"
    by (auto simp: convert_loop_Cons[of t ts] split: sum.splits)
  show ?case using convert_step_kind[OF st] Cons.IH[OF rest] by simp
qed

lemma convert_step_error:
  "convert_loop [t] out oper = Inl e \<Longrightarrow> e \<noteq> ErrDivisionByZero"
  by (auto simp: convert_loop.simps split: if_splits prod.splits)

lemma convert_loop_error:
  "convert_loop tokens out oper = Inl e \<Longrightarrow> e \<noteq> ErrDivisionByZero"
proof (induction tokens arbitrary: out oper)
  case Nil
  then show ?case by simp
next
  case (Cons t ts)
  show ?case
  proof (cases "convert_loop [t] out oper")
    case (Inl e')
    then have "e = e'" using Cons.prems by (simp add: convert_loop_Cons[of t ts])
    then show ?thesis using convert_step_error[OF Inl] by simp
  next
    case (Inr r)
    obtain o1 s1 where r: "r = (o1, s1)" by (cases r)
    have "convert_loop ts o1 s1 = Inl e"
      using Cons.prems Inr r by (simp add: convert_loop_Cons[of t ts])
    then show ?thesis by (rule Cons.IH)
  qed
qed

lemma infixToPostfix_error:
  "infixToPostfix tokens = Inl e \<Longrightarrow> e = ErrInvalidExpression \<or> e = ErrMismatchedParentheses"
proof (cases "convert_loop tokens [] []")
  case (Inl e')
  assume "infixToPostfix tokens = Inl e"
  then have "e = e'" using Inl by (simp add: infixToPostfix_def)
  then show ?thesis using convert_loop_error[OF Inl] by (cases e) simp_all
next
  case (Inr r)
  assume "infixToPostfix tokens = Inl e"
  then show ?thesis using Inr by (cases r) (simp add: infixToPostfix_def drain_eq split: if_splits)
qed

lemma infixToPostfix_rejects:
  assumes "t \<in> set tokens" "\<not> isNumber t" "\<not> isOperator t" "t \<noteq> ''(''" "t \<noteq> '')''"
  shows "infixToPostfix tokens = Inl ErrInvalidExpression
    \<or> infixToPostfix tokens = Inl ErrMismatchedParentheses"
proof (cases "convert_loop tokens [] []")
  case (Inl e)
  then have "infixToPostfix tokens = Inl e" by (simp add: infixToPostfix_def)
  then show ?thesis using infixToPostfix_error by blast
next
  case (Inr r)
  then show ?thesis using convert_loop_kinds[OF Inr] assms by blast
qed

lemma infixToPostfix_rejects_at:
  assumes "convert_loop pre [] [] = Inr r"
    "\<not> isNumber t" "\<not> isOperator t" "t \<noteq> ''(''" "t \<noteq> '')''"
  shows "infixToPostfix (pre @ t # post) = Inl ErrInvalidExpression"
proof -
  obtain o1 s1 where r: "r = (o1, s1)" by (cases r)
  have "convert_loop (t # post) o1 s1 = Inl ErrInvalidExpression"
    using assms(2-5) by (simp add: convert_loop_Cons[of t post] convert_step_other)
  then show ?thesis
    using assms(1) r by (simp add: infixToPostfix_def convert_loop_append)
qed

text \<open>What the two inner loops leave behind.\<close>

lemma pop_to_paren_split:
  "\<exists>ys zs. oper = ys @ zs \<and> ''('' \<notin> set zs \<and> pop_to_paren out oper = (out @ rev zs, ys)"
proof (induction oper arbitrary: out rule: rev_induct)
  case Nil
  then show ?case by simp
next
  case (snoc x xs)
  show ?case
  proof (cases "x = ''(''")
    case True
    then have "xs @ [x] = (xs @ [x]) @ [] \<and> ''('' \<notin> set []
        \<and> pop_to_paren out (xs @ [x]) = (out @ rev [], xs @ [x])"
      by (simp add: pop_to_paren_snoc)
    then show ?thesis by blast
  next
    case False
    from snoc[of "out @ [x]"] obtain ys zs where
      y: "xs = ys @ zs" "''('' \<notin> set zs"
        "pop_to_paren (out @ [x]) xs = ((out @ [x]) @ rev zs, ys)" by blast
    have "pop_to_paren out (xs @ [x]) = pop_to_paren (out @ [x]) xs"
      using False by (simp add: pop_to_paren_snoc)
    then have "xs @ [x] = ys @ (zs @ [x]) \<and> ''('' \<notin> set (zs @ [x])
        \<and> pop_to_paren out (xs @ [x]) = (out @ rev (zs @ [x]), ys)"
      using y False by auto
    then show ?thesis by blast
  qed
qed

lemma pop_higher_split:
  "\<exists>ys zs. oper = ys @ zs \<and> (\<forall>x \<in> set zs. precedence t \<le> precedence x)
     \<and> pop_higher t out oper = (out @ rev zs, ys)"
proof (induction oper arbitrary: out rule: rev_induct)
  case Nil
  then show ?case by simp
next
  case (snoc x xs)
  show ?case
  proof (cases "precedence t \<le> precedence x")
    case False
    then have "xs @ [x] = (xs @ [x]) @ [] \<and> (\<forall>x \<in> set []. precedence t \<le> precedence x)
        \<and> pop_higher t out (xs @ [x]) = (out @ rev [], xs @ [x])"
      by (simp add: pop_higher_snoc)
    then show ?thesis by blast
  next
    case True
    from snoc[of "out @ [x]"] obtain ys zs where
      y: "xs = ys @ zs" "\<forall>x \<in> set zs. precedence t \<le> precedence x"
        "pop_higher t (out @ [x]) xs = ((out @ [x]) @ rev zs, ys)" by blast
    have "pop_higher t out (xs @ [x]) = pop_higher t (out @ [x]) xs"
      using True by (simp add: pop_higher_snoc)
    then have "xs @ [x] = ys @ (zs @ [x]) \<and> (\<forall>x \<in> set (zs @ [x]). precedence t \<le> precedence x)
        \<and> pop_higher t out (xs @ [x]) = (out @ rev (zs @ [x]), ys)"
      using y True by auto
    then show ?thesis by blast
  qed
qed

lemma precedence_operator: "isOperator t \<Longrightarrow> 1 \<le> precedence t"
  by (auto simp: isOperator_def precedence_def)

lemma precedence_open [simp]: "precedence ''('' = 0"
  by (simp add: precedence_def)

lemma convert_step_inv:
  assumes "convert_loop [t] out oper = Inr (out', oper')"
    and "\<forall>x \<in> set out. isNumber x \<or> isOperator x"
    and "\<forall>x \<in> set oper. x = ''('' \<or> isOperator x"
  shows "(\<forall>x \<in> set out'. isNumber x \<or> isOperator x)
    \<and> (\<forall>x \<in> set oper'. x = ''('' \<or> isOperator x)"
proof -
  have in_oper: "\<And>x. x \<in> set oper \<Longrightarrow> x \<noteq> ''('' \<Longrightarrow> isOperator x"
    using assms(3) by blast
  consider "isNumber t" | "t = ''(''" | "t = '')''" | "isOperator t"
    using convert_step_kind[OF assms(1)] by blast
  then show ?thesis
  proof cases
    case 1
    then have o: "out' = out @ [t]" "oper' = oper"
      using assms(1) by (simp_all add: convert_step_number)
    show ?thesis using assms(2,3) 1 by (simp add: o)
  next
    case 2
    then have o: "out' = out" "oper' = oper @ [''('']"
      using assms(1) by (simp_all add: convert_step_open)
    show ?thesis using assms(2,3) by (simp add: o)
  next
    case 3
    obtain ys zs where s: "oper = ys @ zs" "''('' \<notin> set zs"
      "pop_to_paren out oper = (out @ rev zs, ys)"
      using pop_to_paren_split by blast
    have o: "out' = out @ rev zs" "oper' = butlast ys"
      using assms(1) 3 s(3) by (simp_all add: convert_step_close split: if_splits)
    have z: "\<forall>x \<in> set zs. isNumber x \<or> isOperator x"
    proof
      fix x assume x: "x \<in> set zs"
      then have "x \<in> set oper" by (simp add: s(1))
      moreover have "x \<noteq> ''(''" using x s(2) by blast
      ultimately show "isNumber x \<or> isOperator x" using in_oper by blast
    qed
    have y: "\<forall>x \<in> set (butlast ys). x = ''('' \<or> isOperator x"
    proof
      fix x assume "x \<in> set (butlast ys)"
      then have "x \<in> set ys" by (rule in_set_butlastD)
      then have "x \<in> set oper" by (simp add: s(1))
      then show "x = ''('' \<or> isOperator x" using assms(3) by blast
    qed
    show ?thesis using assms(2) z y by (simp add: o ball_Un)
  next
    case 4
    obtain ys zs where s: "oper = ys @ zs" "\<forall>x \<in> set zs. precedence t \<le> precedence x"
      "pop_higher t out oper = (out @ rev zs, ys)"
      using pop_higher_split by blast
    have o: "out' = out @ rev zs" "oper' = ys @ [t]"
      using assms(1) 4 s(3) by (simp_all add: convert_step_operator)
    have z: "\<forall>x \<in> set zs. isNumber x \<or> isOperator x"
    proof
      fix x assume x: "x \<in> set zs"
      then have "x \<in> set oper" by (simp add: s(1))
      moreover have "x \<noteq> ''(''"
      proof
        assume "x = ''(''"
        then have "precedence t \<le> precedence ''(''" using s(2) x by blast
        then show False using precedence_operator[OF 4] by simp
      qed
      ultimately show "isNumber x \<or> isOperator x" using in_oper by blast
    qed
    have y: "\<forall>x \<in> set ys. x = ''('' \<or> isOperator x"
    proof
      fix x assume "x \<in> set ys"
      then have "x \<in> set oper" by (simp add: s(1))
      then show "x = ''('' \<or> isOperator x" using assms(3) by blast
    qed
    show ?thesis using assms(2) z y 4 by (simp add: o ball_Un)
  qed
qed


lemma convert_loop_inv:
  assumes "convert_loop tokens out oper = Inr (out', oper')"
    and "\<forall>x \<in> set out. isNumber x \<or> isOperator x"
    and "\<forall>x \<in> set oper. x = ''('' \<or> isOperator x"
  shows "(\<forall>x \<in> set out'. isNumber x \<or> isOperator x)
    \<and> (\<forall>x \<in> set oper'. x = ''('' \<or> isOperator x)"
  using assms
proof (induction tokens arbitrary: out oper)
  case Nil
  then show ?case by simp
next
  case (Cons t ts)
  from Cons.prems(1) obtain o1 s1 where
    st: "convert_loop [t] out oper = Inr (o1, s1)"
    and rest: "convert_loop ts o1 s1 = Inr (out', oper')"
    by (auto simp: convert_loop_Cons[of t ts] split: sum.splits)
  from convert_step_inv[OF st Cons.prems(2,3)] Cons.IH[OF rest] show ?case by blast
qed

lemma infixToPostfix_output:
  assumes "infixToPostfix tokens = Inr postfix"
  shows "\<forall>x \<in> set postfix. isNumber x \<or> isOperator x"
proof -
  from assms obtain out oper where
    c: "convert_loop tokens [] [] = Inr (out, oper)" and d: "drain out oper = Inr postfix"
    by (auto simp: infixToPostfix_def split: sum.splits)
  have inv: "(\<forall>x \<in> set out. isNumber x \<or> isOperator x)
    \<and> (\<forall>x \<in> set oper. x = ''('' \<or> isOperator x)"
    using convert_loop_inv[OF c] by simp
  have p: "''('' \<notin> set oper" "postfix = out @ rev oper"
    using d by (simp_all add: drain_eq split: if_splits)
  have "\<forall>x \<in> set oper. isOperator x"
  proof
    fix x assume x: "x \<in> set oper"
    then have "x \<noteq> ''(''" using p(1) by blast
    then show "isOperator x" using inv x by blast
  qed
  then show ?thesis using inv by (simp add: p(2) ball_Un)
qed

text \<open>Tokens already emitted are not touched again.\<close>

lemma tokenize_loop_shift:
  "tokenize_loop s (A @ tokens) cur =
     (A @ fst (tokenize_loop s tokens cur), snd (tokenize_loop s tokens cur))"
proof (induction s arbitrary: tokens cur)
  case Nil
  then show ?case by simp
next
  case (Cons c s)
  consider "c = CHR '' ''" | "delimiter c" | "c \<noteq> CHR '' ''" "\<not> delimiter c" by blast
  then show ?case
  proof cases
    case 1
    then show ?thesis using Cons.IH by (simp del: tokenize_loop.simps add: tokenize_step)
  next
    case 2
    have "tokenize_loop (c # s) (A @ tokens) cur =
        tokenize_loop s (A @ ((if cur = [] then tokens else tokens @ [cur]) @ [[c]])) []"
      using 2 by (simp del: tokenize_loop.simps add: tokenize_step)
    then show ?thesis
      using 2 Cons.IH by (simp del: tokenize_loop.simps add: tokenize_step)
  next
    case 3
    then show ?thesis using Cons.IH by (simp del: tokenize_loop.simps add: tokenize_step)
  qed
qed

lemma tokenize_loop_closed:
  "delimiter d \<Longrightarrow> snd (tokenize_loop (xs @ [d]) tokens cur) = []"
  by (simp del: tokenize_loop.simps add: tokenize_loop_append tokenize_step split: prod.splits)

lemma tokenize_run:
  assumes "w \<noteq> []" "\<forall>c \<in> set w. c \<noteq> CHR '' '' \<and> \<not> delimiter c"
    and "pre = [] \<or> delimiter (last pre)" and "post = [] \<or> delimiter (hd post)"
  shows "tokenize (pre @ w @ post) = tokenize pre @ [w] @ tokenize post"
proof -
  obtain T where pre: "tokenize_loop pre [] [] = (T, [])"
  proof (cases "pre = []")
    case True
    then have "tokenize_loop pre [] [] = ([], [])" by simp
    then show ?thesis using that by blast
  next
    case False
    then obtain xs d where "pre = xs @ [d]" "delimiter d"
      using assms(3) by (metis append_butlast_last_id)
    then have "snd (tokenize_loop pre [] []) = []" using tokenize_loop_closed by simp
    then show ?thesis using that by (cases "tokenize_loop pre [] []") simp
  qed
  have w: "tokenize_loop (pre @ w) [] [] = (T, w)"
    by (simp add: tokenize_loop_append pre tokenize_loop_run[OF assms(2)])
  show ?thesis
  proof (cases post)
    case Nil
    then show ?thesis using w assms(1) by (simp add: tokenize_def pre)
  next
    case (Cons d p)
    then have d: "delimiter d" using assms(4) by simp
    have "tokenize_loop (pre @ w @ post) [] [] = tokenize_loop p ((T @ [w]) @ [[d]]) []"
      using tokenize_loop_append[of "pre @ w" post "[]" "[]"] d assms(1)
      by (simp del: tokenize_loop.simps add: w Cons tokenize_step)
    also have "\<dots> = ((T @ [w]) @ fst (tokenize_loop p [[d]] []), snd (tokenize_loop p [[d]] []))"
      by (rule tokenize_loop_shift)
    finally have l: "tokenize_loop (pre @ w @ post) [] [] =
        ((T @ [w]) @ fst (tokenize_loop p [[d]] []), snd (tokenize_loop p [[d]] []))" .
    have r: "tokenize_loop post [] [] = tokenize_loop p [[d]] []"
      using d by (simp del: tokenize_loop.simps add: Cons tokenize_step)
    show ?thesis
      by (simp add: tokenize_def l r pre split: prod.splits)
  qed
qed


lemma not_number_malformed: "\<not> isNumber ''1.2.3''" "\<not> isNumber ''.''"
  by code_simp+

text \<open>
  Claim C3, as the code has it.  \<^verbatim>\<open>tokenize\<close> emits a maximal run of characters that are
  neither spaces, operators nor parentheses as one token, whatever it spells.  A token
  that \<^verbatim>\<open>ParseFloat\<close> rejects and that is neither a parenthesis nor an operator makes
  \<^verbatim>\<open>infixToPostfix\<close> fail: with \<^verbatim>\<open>ErrInvalidExpression\<close> when the loop reaches it, or with
  \<^verbatim>\<open>ErrMismatchedParentheses\<close> when an unmatched \<^verbatim>\<open>")"\<close> comes first.  So the postfix
  output holds numbers and operators only, and no malformed literal reaches
  \<^verbatim>\<open>evaluatePostfix\<close>.  The literals \<^verbatim>\<open>1.2.3\<close> and \<^verbatim>\<open>.\<close> are such tokens; through \<^verbatim>\<open>Calc\<close>
  they are rejected by the validation already.
\<close>

theorem C3_malformed_literal:
  "(w \<noteq> [] \<and> (\<forall>c \<in> set w. c \<noteq> CHR '' '' \<and> \<not> delimiter c)
      \<and> (pre = [] \<or> delimiter (last pre)) \<and> (post = [] \<or> delimiter (hd post))
    \<longrightarrow> tokenize (pre @ w @ post) = tokenize pre @ [w] @ tokenize post)
   \<and> (\<not> isNumber t \<and> \<not> isOperator t \<and> t \<noteq> ''('' \<and> t \<noteq> '')''
    \<longrightarrow> (t \<in> set tokens
          \<longrightarrow> infixToPostfix tokens = Inl ErrInvalidExpression
            \<or> infixToPostfix tokens = Inl ErrMismatchedParentheses)
      \<and> (convert_loop before [] [] = Inr r
          \<longrightarrow> infixToPostfix (before @ t # after) = Inl ErrInvalidExpression))
   \<and> (infixToPostfix tokens = Inr postfix \<longrightarrow> (\<forall>x \<in> set postfix. isNumber x \<or> isOperator x))
   \<and> \<not> isNumber ''1.2.3'' \<and> \<not> isNumber ''.''
   \<and> tokenize ''1.2.3'' = [''1.2.3''] \<and> tokenize ''.'' = [''.'']
   \<and> infixToPostfix [''1.2.3''] = Inl ErrInvalidExpression
   \<and> infixToPostfix [''.''] = Inl ErrInvalidExpression
   \<and> Calc ''1.2.3'' = Inl ErrInvalidExpression"
proof -
  have a: "w \<noteq> [] \<and> (\<forall>c \<in> set w. c \<noteq> CHR '' '' \<and> \<not> delimiter c)
      \<and> (pre = [] \<or> delimiter (last pre)) \<and> (post = [] \<or> delimiter (hd post))
    \<longrightarrow> tokenize (pre @ w @ post) = tokenize pre @ [w] @ tokenize post"
    using tokenize_run[of w pre post] by blast
  have b: "\<not> isNumber t \<and> \<not> isOperator t \<and> t \<noteq> ''('' \<and> t \<noteq> '')''
    \<longrightarrow> (t \<in> set tokens
          \<longrightarrow> infixToPostfix tokens = Inl ErrInvalidExpression
            \<or> infixToPostfix tokens = Inl ErrMismatchedParentheses)
      \<and> (convert_loop before [] [] = Inr r
          \<longrightarrow> infixToPostfix (before @ t # after) = Inl ErrInvalidExpression)"
    using infixToPostfix_rejects[of t tokens] infixToPostfix_rejects_at[of before r t after]
    by blast
  have c: "infixToPostfix tokens = Inr postfix
      \<longrightarrow> (\<forall>x \<in> set postfix. isNumber x \<or> isOperator x)"
    using infixToPostfix_output by blast
  have d: "tokenize ''1.2.3'' = [''1.2.3'']" "tokenize ''.'' = [''.'']"
    by (simp_all add: tokenize_def)
  have e: "infixToPostfix [''1.2.3''] = Inl ErrInvalidExpression"
    "infixToPostfix [''.''] = Inl ErrInvalidExpression"
    by (simp_all add: infixToPostfix_def conv_eval not_number_malformed isOperator_def)
  have f: "Calc ''1.2.3'' = Inl ErrInvalidExpression"
    by (simp add: Calc_def TrimSpace_def isSpace_def ContainsRune_def less_eq_char_def)
  show ?thesis by (intro conjI a b c not_number_malformed d e f)
qed

theorem C3_malformed_literal_witness:
  "tokenize (''4+'' @ ''1.2.3'' @ ''*5'') = [''4'', ''+'', ''1.2.3'', ''*'', ''5'']
   \<and> \<not> isNumber ''1.2.3'' \<and> \<not> isOperator ''1.2.3''
   \<and> ''1.2.3'' \<in> set [''4'', ''+'', ''1.2.3'', ''*'', ''5'']
   \<and> convert_loop [''4'', ''+''] [] [] = Inr ([''4''], [''+''])
   \<and> infixToPostfix ([''4'', ''+''] @ ''1.2.3'' # [''*'', ''5'']) = Inl ErrInvalidExpression
   \<and> infixToPostfix ['')'', ''1.2.3''] = Inl ErrMismatchedParentheses
   \<and> infixToPostfix [''4'', ''+'', ''5''] = Inr [''4'', ''5'', ''+'']
   \<and> isNumber ''4'' \<and> isNumber ''5'' \<and> isOperator ''+''"
proof -
  have h: "convert_loop [''4'', ''+''] [] [] = Inr ([''4''], [''+''])"
    by (simp add: calc_eval conv_eval)
  have p: "infixToPostfix [''4'', ''+'', ''5''] = Inr [''4'', ''5'', ''+'']"
    by (simp add: calc_eval conv_eval)
  have m: "infixToPostfix ['')'', ''1.2.3''] = Inl ErrMismatchedParentheses"
    by (simp add: calc_eval conv_eval)
  have k: "''4+'' \<noteq> [] \<and> delimiter (last ''4+'') \<and> delimiter (hd ''*5'')
    \<and> (\<forall>c \<in> set ''1.2.3''. c \<noteq> CHR '' '' \<and> \<not> delimiter c)"
    by (simp add: delimiter_def)
  have t: "tokenize ''4+'' = [''4'', ''+'']" "tokenize ''*5'' = [''*'', ''5'']"
    by (simp_all add: tokenize_def)
  show ?thesis
    using C3_malformed_literal[where w = "''1.2.3''" and pre = "''4+''" and post = "''*5''"
        and t = "''1.2.3''" and tokens = "[''4'', ''+'', ''5'']" and before = "[''4'', ''+'']"
        and r = "([''4''], [''+''])" and after = "[''*'', ''5'']" and postfix = "[''4'', ''5'', ''+'']"]
      h p m k t not_number_malformed
    by (simp add: isOperator_def)
qed

theorem C3_counterexample:
  "\<not> isNumber ''1.2.3'' \<and> tokenize ''1.2.3'' = [''1.2.3'']
   \<and> infixToPostfix (tokenize ''1.2.3'') = Inl ErrInvalidExpression"
  by (simp add: tokenize_def infixToPostfix_def conv_eval not_number_malformed isOperator_def)


subsection \<open>Well-formed expressions\<close>

lemma literal_ok_number:
  assumes "literal_ok n"
  shows "isNumber n" and "fst (ParseFloat n) = literal_value n"
proof -
  have d: "n \<noteq> []" "list_all is_digit n" and f: "is_finite (literal_value n)"
    using assms by (simp_all add: literal_ok_def)
  obtain s m where v: "literal_value n = Finite s m"
    using f by (cases "literal_value n") simp_all
  have "ParseFloat n = (Finite s m, None)"
    using v by (simp add: ParseFloat_digits[OF d] literal_value_def)
  then show "isNumber n" and "fst (ParseFloat n) = literal_value n"
    by (simp_all add: isNumber_def v)
qed

lemma eval_binary:
  assumes A: "\<And>rest st. eval_loop (pa @ rest) st =
      (case va of Inl err \<Rightarrow> Inl err | Inr v \<Rightarrow> eval_loop rest (st @ [v]))"
    and B: "\<And>rest st. eval_loop (pb @ rest) st =
      (case vb of Inl err \<Rightarrow> Inl err | Inr v \<Rightarrow> eval_loop rest (st @ [v]))"
    and OP: "\<And>rest st a b. eval_loop (op # rest) (st @ [a, b]) =
      (case f a b of Inl err \<Rightarrow> Inl err | Inr v \<Rightarrow> eval_loop rest (st @ [v]))"
  shows "eval_loop ((pa @ pb @ [op]) @ rest) st =
      (case binary f va vb of Inl err \<Rightarrow> Inl err | Inr v \<Rightarrow> eval_loop rest (st @ [v]))"
proof -
  have s: "eval_loop ((pa @ pb @ [op]) @ rest) st = eval_loop (pa @ (pb @ (op # rest))) st"
    by simp
  show ?thesis
  proof (cases va)
    case (Inl e)
    then show ?thesis unfolding s A by (simp add: binary_def)
  next
    case a: (Inr a)
    show ?thesis
    proof (cases vb)
      case (Inl e)
      then show ?thesis unfolding s A a by (simp add: binary_def B del: eval_loop.simps)
    next
      case b: (Inr b)
      show ?thesis unfolding s A a by (simp add: binary_def B b OP del: eval_loop.simps)
    qed
  qed
qed

lemma eval_operators:
  "eval_loop (''+'' # rest) (st @ [a, b]) =
     (case Inr (f64_add a b) of Inl err \<Rightarrow> Inl err | Inr v \<Rightarrow> eval_loop rest (st @ [v]))"
  "eval_loop (''-'' # rest) (st @ [a, b]) =
     (case Inr (f64_sub a b) of Inl err \<Rightarrow> Inl err | Inr v \<Rightarrow> eval_loop rest (st @ [v]))"
  "eval_loop (''*'' # rest) (st @ [a, b]) =
     (case Inr (f64_mul a b) of Inl err \<Rightarrow> Inl err | Inr v \<Rightarrow> eval_loop rest (st @ [v]))"
  "eval_loop (''/'' # rest) (st @ [a, b]) =
     (case quotient a b of Inl err \<Rightarrow> Inl err | Inr v \<Rightarrow> eval_loop rest (st @ [v]))"
  by (simp_all add: eval_loop_add eval_loop_sub eval_loop_mul eval_loop_div quotient_def
      del: eval_loop.simps)

lemma eval_postfix:
  "literals_sum e \<Longrightarrow> eval_loop (postfix_sum e @ rest) st =
     (case value_sum e of Inl err \<Rightarrow> Inl err | Inr v \<Rightarrow> eval_loop rest (st @ [v]))"
  "literals_prod t \<Longrightarrow> eval_loop (postfix_prod t @ rest) st =
     (case value_prod t of Inl err \<Rightarrow> Inl err | Inr v \<Rightarrow> eval_loop rest (st @ [v]))"
  "literals_atom f \<Longrightarrow> eval_loop (postfix_atom f @ rest) st =
     (case value_atom f of Inl err \<Rightarrow> Inl err | Inr v \<Rightarrow> eval_loop rest (st @ [v]))"
proof (induction e and t and f arbitrary: rest st and rest st and rest st)
  case (Term t)
  then show ?case by simp
next
  case (Add e t)
  then have l: "literals_sum e" "literals_prod t" by simp_all
  show ?case
    unfolding postfix_sum.simps value_sum.simps
    by (rule eval_binary[OF Add.IH(1)[OF l(1)] Add.IH(2)[OF l(2)] eval_operators(1)])
next
  case (Sub e t)
  then have l: "literals_sum e" "literals_prod t" by simp_all
  show ?case
    unfolding postfix_sum.simps value_sum.simps
    by (rule eval_binary[OF Sub.IH(1)[OF l(1)] Sub.IH(2)[OF l(2)] eval_operators(2)])
next
  case (Factor f)
  then show ?case by simp
next
  case (Mul t f)
  then have l: "literals_prod t" "literals_atom f" by simp_all
  show ?case
    unfolding postfix_prod.simps value_prod.simps
    by (rule eval_binary[OF Mul.IH(1)[OF l(1)] Mul.IH(2)[OF l(2)] eval_operators(3)])
next
  case (Quot t f)
  then have l: "literals_prod t" "literals_atom f" by simp_all
  show ?case
    unfolding postfix_prod.simps value_prod.simps
    by (rule eval_binary[OF Quot.IH(1)[OF l(1)] Quot.IH(2)[OF l(2)] eval_operators(4)])
next
  case (Lit n)
  then show ?case
    using literal_ok_number[of n] by simp
next
  case (Paren e)
  then show ?case by simp
qed

lemma evaluatePostfix_postfix:
  "literals_sum e \<Longrightarrow> evaluatePostfix (postfix_sum e) = value_sum e"
  using eval_postfix(1)[of e "[]" "[]"]
  by (cases "value_sum e") (simp_all add: evaluatePostfix_def)


text \<open>Steps of the converter on a token followed by more tokens.\<close>

lemma convert_number:
  "isNumber t \<Longrightarrow> convert_loop (t # ts) out oper = convert_loop ts (out @ [t]) oper"
  by (simp add: convert_loop.simps)

lemma convert_open:
  "convert_loop (''('' # ts) out oper = convert_loop ts out (oper @ [''(''])"
  by (simp add: convert_loop.simps not_number_ops)

lemma convert_close:
  "''('' \<notin> set pend \<Longrightarrow>
     convert_loop ('')'' # ts) out (base @ ''('' # pend) = convert_loop ts (out @ rev pend) base"
  by (simp add: convert_loop.simps not_number_ops pop_to_paren_open)

lemma convert_operator:
  assumes "isOperator t" "\<forall>x \<in> set pend. precedence t \<le> precedence x"
    "base = [] \<or> precedence (last base) < precedence t"
  shows "convert_loop (t # ts) out (base @ pend) = convert_loop ts (out @ rev pend) (base @ [t])"
proof -
  have n: "\<not> isNumber t" "t \<noteq> ''(''" "t \<noteq> '')''"
    using assms(1) not_number_ops by (auto simp: isOperator_def)
  have "pop_higher t out (base @ pend) = (out @ rev pend, base)"
    by (simp add: pop_higher_all[OF assms(2)] pop_higher_stop[OF assms(3)])
  then show ?thesis using n assms(1) by (simp add: convert_loop.simps)
qed

lemma pending_prod_precedence: "\<forall>x \<in> set (pending_prod t). precedence x = 2"
  by (cases t) (simp_all add: precedence_def)

lemma pending_sum_precedence: "\<forall>x \<in> set (pending_sum e). 1 \<le> precedence x"
proof -
  have p: "\<And>t. \<forall>x \<in> set (pending_prod t). 1 \<le> precedence x"
    using pending_prod_precedence by simp
  have o: "precedence ''+'' = 1" "precedence ''-'' = 1" by (simp_all add: precedence_def)
  show ?thesis by (cases e) (simp_all add: p o)
qed

lemma postfix_emitted:
  "postfix_prod t = emitted_prod t @ rev (pending_prod t)"
  "postfix_sum e = emitted_sum e @ rev (pending_sum e)"
proof -
  show p: "\<And>t. postfix_prod t = emitted_prod t @ rev (pending_prod t)"
    subgoal for t by (cases t) simp_all
    done
  show "postfix_sum e = emitted_sum e @ rev (pending_sum e)"
    by (cases e) (simp_all add: p)
qed


lemma literal_ok_token:
  assumes "literal_ok n"
  shows "isNumber n"
  by (rule literal_ok_number(1)[OF assms])

lemma convert_tokens:
  "literals_sum e \<Longrightarrow> oper = [] \<or> last oper = ''('' \<Longrightarrow>
     convert_loop (tokens_sum e @ rest) out oper =
       convert_loop rest (out @ emitted_sum e) (oper @ pending_sum e)"
  "literals_prod t \<Longrightarrow> oper = [] \<or> precedence (last oper) < 2 \<Longrightarrow>
     convert_loop (tokens_prod t @ rest) out oper =
       convert_loop rest (out @ emitted_prod t) (oper @ pending_prod t)"
  "literals_atom f \<Longrightarrow>
     convert_loop (tokens_atom f @ rest) out oper = convert_loop rest (out @ postfix_atom f) oper"
proof (induction e and t and f arbitrary: rest out oper and rest out oper and rest out oper)
  case (Term t)
  then have "oper = [] \<or> precedence (last oper) < 2" by auto
  then show ?case using Term by simp
next
  case (Add e t)
  have l: "literals_sum e" "literals_prod t" using Add.prems(1) by simp_all
  have base: "oper = [] \<or> precedence (last oper) < precedence ''+''"
    using Add.prems(2) by (auto simp: precedence_def)
  have pend: "\<forall>x \<in> set (pending_sum e). precedence ''+'' \<le> precedence x"
    using pending_sum_precedence[of e] by (simp add: precedence_def)
  have top: "oper @ [''+''] = [] \<or> precedence (last (oper @ [''+''])) < 2"
    by (simp add: precedence_def)
  have "convert_loop (tokens_sum (Add e t) @ rest) out oper =
      convert_loop (tokens_sum e @ (''+'' # (tokens_prod t @ rest))) out oper"
    by simp
  also have "\<dots> = convert_loop (''+'' # (tokens_prod t @ rest)) (out @ emitted_sum e)
      (oper @ pending_sum e)"
    by (rule Add.IH(1)[OF l(1) Add.prems(2)])
  also have "\<dots> = convert_loop (tokens_prod t @ rest) ((out @ emitted_sum e) @ rev (pending_sum e))
      (oper @ [''+''])"
    by (rule convert_operator[OF _ pend base]) (simp add: isOperator_def)
  also have "\<dots> = convert_loop (tokens_prod t @ rest) (out @ postfix_sum e) (oper @ [''+''])"
    by (simp add: postfix_emitted(2)[of e])
  also have "\<dots> = convert_loop rest ((out @ postfix_sum e) @ emitted_prod t)
      ((oper @ [''+'']) @ pending_prod t)"
    by (rule Add.IH(2)[OF l(2) top])
  finally show ?case by simp
next
  case (Sub e t)
  have l: "literals_sum e" "literals_prod t" using Sub.prems(1) by simp_all
  have base: "oper = [] \<or> precedence (last oper) < precedence ''-''"
    using Sub.prems(2) by (auto simp: precedence_def)
  have pend: "\<forall>x \<in> set (pending_sum e). precedence ''-'' \<le> precedence x"
    using pending_sum_precedence[of e] by (simp add: precedence_def)
  have top: "oper @ [''-''] = [] \<or> precedence (last (oper @ [''-''])) < 2"
    by (simp add: precedence_def)
  have "convert_loop (tokens_sum (Sub e t) @ rest) out oper =
      convert_loop (tokens_sum e @ (''-'' # (tokens_prod t @ rest))) out oper"
    by simp
  also have "\<dots> = convert_loop (''-'' # (tokens_prod t @ rest)) (out @ emitted_sum e)
      (oper @ pending_sum e)"
    by (rule Sub.IH(1)[OF l(1) Sub.prems(2)])
  also have "\<dots> = convert_loop (tokens_prod t @ rest) ((out @ emitted_sum e) @ rev (pending_sum e))
      (oper @ [''-''])"
    by (rule convert_operator[OF _ pend base]) (simp add: isOperator_def)
  also have "\<dots> = convert_loop (tokens_prod t @ rest) (out @ postfix_sum e) (oper @ [''-''])"
    by (simp add: postfix_emitted(2)[of e])
  also have "\<dots> = convert_loop rest ((out @ postfix_sum e) @ emitted_prod t)
      ((oper @ [''-'']) @ pending_prod t)"
    by (rule Sub.IH(2)[OF l(2) top])
  finally show ?case by simp
next
  case (Factor f)
  then show ?case by simp
next
  case (Mul t f)
  have l: "literals_prod t" "literals_atom f" using Mul.prems(1) by simp_all
  have base: "oper = [] \<or> precedence (last oper) < precedence ''*''"
    using Mul.prems(2) by (simp add: precedence_def)
  have pend: "\<forall>x \<in> set (pending_prod t). precedence ''*'' \<le> precedence x"
    using pending_prod_precedence[of t] by (simp add: precedence_def)
  have "convert_loop (tokens_prod (Mul t f) @ rest) out oper =
      convert_loop (tokens_prod t @ (''*'' # (tokens_atom f @ rest))) out oper"
    by simp
  also have "\<dots> = convert_loop (''*'' # (tokens_atom f @ rest)) (out @ emitted_prod t)
      (oper @ pending_prod t)"
    by (rule Mul.IH(1)[OF l(1) Mul.prems(2)])
  also have "\<dots> = convert_loop (tokens_atom f @ rest) ((out @ emitted_prod t) @ rev (pending_prod t))
      (oper @ [''*''])"
    by (rule convert_operator[OF _ pend base]) (simp add: isOperator_def)
  also have "\<dots> = convert_loop (tokens_atom f @ rest) (out @ postfix_prod t) (oper @ [''*''])"
    by (simp add: postfix_emitted(1)[of t])
  also have "\<dots> = convert_loop rest ((out @ postfix_prod t) @ postfix_atom f) (oper @ [''*''])"
    by (rule Mul.IH(2)[OF l(2)])
  finally show ?case by simp
next
  case (Quot t f)
  have l: "literals_prod t" "literals_atom f" using Quot.prems(1) by simp_all
  have base: "oper = [] \<or> precedence (last oper) < precedence ''/''"
    using Quot.prems(2) by (simp add: precedence_def)
  have pend: "\<forall>x \<in> set (pending_prod t). precedence ''/'' \<le> precedence x"
    using pending_prod_precedence[of t] by (simp add: precedence_def)
  have "convert_loop (tokens_prod (Quot t f) @ rest) out oper =
      convert_loop (tokens_prod t @ (''/'' # (tokens_atom f @ rest))) out oper"
    by simp
  also have "\<dots> = convert_loop (''/'' # (tokens_atom f @ rest)) (out @ emitted_prod t)
      (oper @ pending_prod t)"
    by (rule Quot.IH(1)[OF l(1) Quot.prems(2)])
  also have "\<dots> = convert_loop (tokens_atom f @ rest) ((out @ emitted_prod t) @ rev (pending_prod t))
      (oper @ [''/''])"
    by (rule convert_operator[OF _ pend base]) (simp add: isOperator_def)
  also have "\<dots> = convert_loop (tokens_atom f @ rest) (out @ postfix_prod t) (oper @ [''/''])"
    by (simp add: postfix_emitted(1)[of t])
  also have "\<dots> = convert_loop rest ((out @ postfix_prod t) @ postfix_atom f) (oper @ [''/''])"
    by (rule Quot.IH(2)[OF l(2)])
  finally show ?case by simp
next
  case (Lit n)
  then show ?case by (simp add: convert_number literal_ok_token)
next
  case (Paren e)
  have l: "literals_sum e" using Paren.prems by simp
  have base: "oper @ [''(''] = [] \<or> last (oper @ [''('']) = ''(''" by simp
  have np: "''('' \<notin> set (pending_sum e)"
    using pending_sum_precedence[of e] by fastforce
  have "convert_loop (tokens_atom (Paren e) @ rest) out oper =
      convert_loop (''('' # (tokens_sum e @ ('')'' # rest))) out oper"
    by simp
  also have "\<dots> = convert_loop (tokens_sum e @ ('')'' # rest)) out (oper @ [''(''])"
    by (rule convert_open)
  also have "\<dots> = convert_loop ('')'' # rest) (out @ emitted_sum e)
      ((oper @ [''('']) @ pending_sum e)"
    by (rule Paren.IH[OF l base])
  also have "\<dots> = convert_loop ('')'' # rest) (out @ emitted_sum e)
      (oper @ ''('' # pending_sum e)"
    by simp
  also have "\<dots> = convert_loop rest ((out @ emitted_sum e) @ rev (pending_sum e)) oper"
    by (rule convert_close[OF np])
  finally show ?case by (simp add: postfix_emitted(2)[of e])
qed

lemma infixToPostfix_tokens:
  assumes "literals_sum e"
  shows "infixToPostfix (tokens_sum e) = Inr (postfix_sum e)"
proof -
  have "convert_loop (tokens_sum e @ []) [] [] = convert_loop [] ([] @ emitted_sum e) ([] @ pending_sum e)"
    by (rule convert_tokens(1)[OF assms]) simp
  then have c: "convert_loop (tokens_sum e) [] [] = Inr (emitted_sum e, pending_sum e)" by simp
  have np: "''('' \<notin> set (pending_sum e)"
    using pending_sum_precedence[of e] by fastforce
  show ?thesis by (simp add: infixToPostfix_def c drain_eq np postfix_emitted(2)[of e])
qed


text \<open>Reading a separated token list back.\<close>

lemma delimiter_tokenE:
  assumes "delimiter_token t"
  obtains d where "t = [d]" "delimiter d"
proof -
  from assms have l: "length t = 1" and d: "delimiter (hd t)"
    by (simp_all add: delimiter_token_def)
  from l obtain c where "t = [c]" by (cases t) auto
  then show ?thesis using d that by simp
qed

lemma word_not_delimiter: "word_token t \<Longrightarrow> \<not> delimiter_token t"
proof
  assume w: "word_token t" and "delimiter_token t"
  then obtain d where "t = [d]" "delimiter d" by (auto elim: delimiter_tokenE)
  then show False using w by (simp add: word_token_def)
qed

lemma tokenize_loop_separated:
  assumes "separated ts" "cur = [] \<or> ts = [] \<or> delimiter_token (hd ts)"
  shows "(case tokenize_loop (concat ts) T cur of
            (T', c') \<Rightarrow> if length c' > 0 then T' @ [c'] else T') =
         (if cur = [] then T else T @ [cur]) @ ts"
  using assms
proof (induction ts arbitrary: T cur)
  case Nil
  then show ?case by simp
next
  case (Cons t ts)
  have sep: "separated ts" using Cons.prems(1) by simp
  show ?case
  proof (cases "delimiter_token t")
    case True
    then obtain d where d: "t = [d]" "delimiter d" by (rule delimiter_tokenE)
    have "tokenize_loop (concat (t # ts)) T cur =
        tokenize_loop (concat ts) ((if cur = [] then T else T @ [cur]) @ [[d]]) []"
      using d by (simp del: tokenize_loop.simps add: tokenize_step)
    then show ?thesis
      using Cons.IH[OF sep, of "[]" "(if cur = [] then T else T @ [cur]) @ [[d]]"] d(1)
      by simp
  next
    case False
    then have w: "word_token t" and nxt: "ts = [] \<or> delimiter_token (hd ts)"
      using Cons.prems(1) by auto
    have cur: "cur = []" using Cons.prems(2) False by simp
    have run: "\<forall>c \<in> set t. c \<noteq> CHR '' '' \<and> \<not> delimiter c" and ne: "t \<noteq> []"
      using w by (simp_all add: word_token_def)
    have "tokenize_loop (concat (t # ts)) T cur = tokenize_loop (concat ts) T t"
      by (simp add: tokenize_loop_append tokenize_loop_run[OF run] cur)
    moreover have "t = [] \<or> ts = [] \<or> delimiter_token (hd ts)" using nxt by blast
    ultimately show ?thesis
      using Cons.IH[OF sep, of t T] ne cur by simp
  qed
qed

lemma tokenize_concat: "separated ts \<Longrightarrow> tokenize (concat ts) = ts"
  using tokenize_loop_separated[of ts "[]" "[]"] by (simp add: tokenize_def)

lemma separated_append:
  assumes "separated xs" "separated ys"
    "xs = [] \<or> ys = [] \<or> delimiter_token (last xs) \<or> delimiter_token (hd ys)"
  shows "separated (xs @ ys)"
  using assms
proof (induction xs)
  case Nil
  then show ?case by simp
next
  case (Cons x xs)
  show ?case
  proof (cases "xs = []")
    case True
    then show ?thesis using Cons.prems by auto
  next
    case False
    then have "separated (xs @ ys)" using Cons by auto
    then show ?thesis using Cons.prems(1) False by auto
  qed
qed


lemma literal_ok_word: "literal_ok n \<Longrightarrow> word_token n"
  using is_digit_not_special
  by (auto simp: literal_ok_def word_token_def list_all_iff delimiter_def)

lemma delimiter_tokens [simp]:
  "delimiter_token ''+''" "delimiter_token ''-''" "delimiter_token ''*''"
  "delimiter_token ''/''" "delimiter_token ''(''" "delimiter_token '')''"
  by (simp_all add: delimiter_token_def delimiter_def)

lemma separated_operator:
  assumes "separated xs" "separated ys" "delimiter_token t"
  shows "separated (xs @ t # ys)"
proof -
  have "separated (t # ys)" using assms(2,3) by simp
  then show ?thesis
    using assms(1,3) by (intro separated_append) simp_all
qed

lemma tokens_separated:
  "literals_sum e \<Longrightarrow> separated (tokens_sum e)"
  "literals_prod t \<Longrightarrow> separated (tokens_prod t)"
  "literals_atom f \<Longrightarrow> separated (tokens_atom f)"
proof (induction e and t and f)
  case (Lit n)
  then show ?case using literal_ok_word[of n] by simp
next
  case (Paren e)
  then have "separated (tokens_sum e @ '')'' # [])"
    by (intro separated_operator) simp_all
  then show ?case by simp
qed (simp_all add: separated_operator)

lemma tokens_kinds:
  "literals_sum e \<Longrightarrow>
     tokens_sum e \<noteq> [] \<and> (\<forall>x \<in> set (tokens_sum e). literal_ok x \<or> delimiter_token x)"
  "literals_prod t \<Longrightarrow>
     tokens_prod t \<noteq> [] \<and> (\<forall>x \<in> set (tokens_prod t). literal_ok x \<or> delimiter_token x)"
  "literals_atom f \<Longrightarrow>
     tokens_atom f \<noteq> [] \<and> (\<forall>x \<in> set (tokens_atom f). literal_ok x \<or> delimiter_token x)"
  by (induction e and t and f) (simp_all add: ball_Un)

lemma token_chars:
  assumes "literal_ok x \<or> delimiter_token x"
  shows "x \<noteq> [] \<and> (\<forall>c \<in> set x. (is_digit c \<or> c \<in> set ''+-*/() '') \<and> c \<noteq> CHR '' '')"
proof (cases "delimiter_token x")
  case True
  then obtain d where "x = [d]" "delimiter d" by (rule delimiter_tokenE)
  then show ?thesis by (auto simp: delimiter_def)
next
  case False
  then have "literal_ok x" using assms by blast
  then show ?thesis
    using is_digit_not_special(9) by (auto simp: literal_ok_def list_all_iff)
qed

lemma Calc_rendered:
  assumes "literals_sum e"
  shows "Calc (concat (tokens_sum e)) = value_sum e"
proof -
  let ?r = "concat (tokens_sum e)"
  note k = tokens_kinds(1)[OF assms]
  have chars: "\<forall>c \<in> set ?r. (is_digit c \<or> c \<in> set ''+-*/() '') \<and> c \<noteq> CHR '' ''"
    using k token_chars by fastforce
  obtain x xs where x: "tokens_sum e = x # xs" using k by (cases "tokens_sum e") auto
  then have "x \<noteq> []" using k token_chars[of x] by simp
  then have ne: "?r \<noteq> []" by (simp add: x)
  have valid: "isValidExpression ?r"
    using chars by (simp only: isValidExpression_iff) blast
  have "\<not> (\<forall>c \<in> set ?r. isSpace c)"
  proof
    assume a: "\<forall>c \<in> set ?r. isSpace c"
    have "hd ?r \<in> set ?r" by (rule hd_in_set[OF ne])
    then have "isSpace (hd ?r)" "hd ?r \<noteq> CHR '' ''"
      "is_digit (hd ?r) \<or> hd ?r \<in> set ''+-*/() ''"
      using a chars by blast+
    then show False using valid_space[of "hd ?r"] by blast
  qed
  then have trim: "TrimSpace ?r \<noteq> []" by (simp only: TrimSpace_Nil_iff) simp
  have tok: "tokenize ?r = tokens_sum e"
    by (rule tokenize_concat[OF tokens_separated(1)[OF assms]])
  show ?thesis
    by (simp add: Calc_def trim valid tok infixToPostfix_tokens[OF assms]
        evaluatePostfix_postfix[OF assms])
qed


text \<open>The only error of a well-formed expression is a division by zero.\<close>

lemma binary_error:
  assumes "binary f x y = Inl err"
    and "\<And>e. x = Inl e \<Longrightarrow> e = ErrDivisionByZero"
    and "\<And>e. y = Inl e \<Longrightarrow> e = ErrDivisionByZero"
    and "\<And>a b e. f a b = Inl e \<Longrightarrow> e = ErrDivisionByZero"
  shows "err = ErrDivisionByZero"
  using assms by (auto simp: binary_def split: sum.splits)

lemma value_error:
  "value_sum e = Inl err \<Longrightarrow> err = ErrDivisionByZero"
  "value_prod t = Inl err \<Longrightarrow> err = ErrDivisionByZero"
  "value_atom f = Inl err \<Longrightarrow> err = ErrDivisionByZero"
proof (induction e and t and f arbitrary: err and err and err)
  case (Add e t)
  then show ?case by (auto elim!: binary_error)
next
  case (Sub e t)
  then show ?case by (auto elim!: binary_error)
next
  case (Mul t f)
  then show ?case by (auto elim!: binary_error)
next
  case (Quot t f)
  then show ?case by (auto elim!: binary_error simp: quotient_def split: if_splits)
qed simp_all

text \<open>Literals beyond the range of \<^verbatim>\<open>float64\<close>.\<close>

lemma round_half_even_ge: "\<lfloor>x\<rfloor> \<le> round_half_even x"
  by (simp add: round_half_even_def Let_def)

lemma round64_overflow:
  assumes "2 ^ 1024 \<le> q"
  shows "round64 s q = Infinity s"
proof -
  have q0: "0 < q" using assms by (rule order.strict_trans2[rotated]) simp
  have "pow2 1024 \<le> q" using assms by (simp add: pow2_def)
  also have "q < pow2 (ilog2 q + 1)" by (rule ilog2_bounds(2)[OF q0])
  finally have L: "1024 \<le> ilog2 q" by (simp add: pow2_less_iff)
  define d where "d = max (ilog2 q - 52) (- 1074)"
  have d: "d = ilog2 q - 52" using L by (simp add: d_def)
  have "pow2 52 * pow2 d = pow2 (ilog2 q)" by (simp add: d flip: pow2_add)
  also have "\<dots> \<le> q" by (rule ilog2_bounds(1)[OF q0])
  finally have "pow2 52 \<le> q / pow2 d" using pow2_pos[of d] by (simp add: pos_le_divide_eq)
  then have "(of_int (2 ^ 52) :: rat) \<le> q / pow2 d" by (simp add: pow2_def)
  then have "2 ^ 52 \<le> \<lfloor>q / pow2 d\<rfloor>" by (simp only: le_floor_iff)
  then have m: "2 ^ 52 \<le> round_half_even (q / pow2 d)"
    using round_half_even_ge[of "q / pow2 d"] by linarith
  have "pow2 1024 = pow2 52 * pow2 972" by (simp flip: pow2_add)
  also have "\<dots> \<le> pow2 52 * pow2 d" using L pow2_pos[of 52] by (simp add: d pow2_le_iff)
  also have "\<dots> \<le> of_int (round_half_even (q / pow2 d)) * pow2 d"
  proof -
    have "(of_int (2 ^ 52) :: rat) \<le> of_int (round_half_even (q / pow2 d))"
      using m by (simp only: of_int_le_iff)
    then have "pow2 52 \<le> of_int (round_half_even (q / pow2 d))" by (simp add: pow2_def)
    then show ?thesis using pow2_pos[of d] by simp
  qed
  finally have "2 ^ 1024 \<le> of_int (round_half_even (q / pow2 d)) * pow2 d"
    by (simp add: pow2_def)
  then show ?thesis using q0
    unfolding round64_def d_def[symmetric] Let_def by simp
qed


lemma foldl_zeros:
  "foldl (\<lambda>a c. 10 * a + digit_val c) a (replicate k (CHR ''0'')) = a * 10 ^ k"
  by (induction k arbitrary: a) (simp_all add: digit_val_def is_digit_def less_eq_char_def)

lemma base_val_one_zeros: "base_val 10 (CHR ''1'' # replicate k (CHR ''0'')) = 10 ^ k"
proof -
  have d1: "digit_val (CHR ''1'') = 1"
    by (simp add: digit_val_def is_digit_def less_eq_char_def)
  show ?thesis by (simp only: base_val_def foldl_Cons foldl_zeros d1) simp
qed

lemma huge_literal:
  "\<not> isNumber (CHR ''1'' # replicate 309 (CHR ''0''))"
proof -
  let ?n = "CHR ''1'' # replicate 309 (CHR ''0'')"
  have d: "?n \<noteq> []" "list_all is_digit ?n"
    by (simp_all add: list_all_iff is_digit_def less_eq_char_def)
  have "(2::int) ^ 1024 \<le> 10 ^ 309" by simp
  then have "(of_int (2 ^ 1024) :: rat) \<le> of_int (10 ^ 309)" by (simp only: of_int_le_iff)
  then have "(2::rat) ^ 1024 \<le> of_int (base_val 10 ?n)"
    by (simp only: base_val_one_zeros) simp
  then have "round64 False (of_int (base_val 10 ?n)) = Infinity False"
    by (rule round64_overflow)
  then show ?thesis by (simp only: isNumber_def ParseFloat_digits[OF d]) simp
qed

lemma Calc_huge_literal:
  "Calc (CHR ''1'' # replicate 309 (CHR ''0'')) = Inl ErrInvalidExpression"
proof -
  let ?n = "CHR ''1'' # replicate 309 (CHR ''0'')"
  have dig: "\<forall>c \<in> set ?n. is_digit c" by (simp add: is_digit_def less_eq_char_def)
  have run: "\<forall>c \<in> set ?n. c \<noteq> CHR '' '' \<and> \<not> delimiter c"
    by (simp add: delimiter_def)
  have valid: "isValidExpression ?n" using dig by (simp only: isValidExpression_iff) blast
  have trim: "TrimSpace ?n \<noteq> []"
    by (simp only: TrimSpace_Nil_iff) (simp add: isSpace_def)
  have "tokenize_loop ?n [] [] = ([], [] @ ?n)" by (rule tokenize_loop_run[OF run])
  then have tok: "tokenize ?n = [?n]" by (simp add: tokenize_def)
  have "infixToPostfix [?n] = Inl ErrInvalidExpression"
    using huge_literal by (simp add: infixToPostfix_def convert_step_other isOperator_def)
  then show ?thesis by (simp add: Calc_def trim valid tok)
qed

text \<open>The range of finite results: rounding overflows from \<open>2 ^ 1024 - 2 ^ 970\<close> on.\<close>

lemma round_half_even_le: "of_int (round_half_even x) \<le> x + 1 / 2"
proof -
  define f where "f = \<lfloor>x\<rfloor>"
  define d where "d = x - of_int f"
  have f: "of_int f \<le> x" by (simp add: f_def)
  have r: "round_half_even x =
      (if d < 1 / 2 then f else if 1 / 2 < d then f + 1 else if even f then f else f + 1)"
    by (simp add: round_half_even_def Let_def f_def d_def)
  consider "d < 1 / 2" | "1 / 2 < d" | "d = 1 / 2" by linarith
  then show ?thesis
  proof cases
    case 1
    then have "round_half_even x = f" by (simp add: r)
    then show ?thesis using f by simp
  next
    case 2
    then have "round_half_even x = f + 1" by (simp add: r)
    moreover have "of_int f + 1 < x + 1 / 2" using 2 by (simp add: d_def)
    ultimately show ?thesis by simp
  next
    case 3
    then have "round_half_even x = f \<or> round_half_even x = f + 1" by (simp add: r)
    moreover have "of_int f + 1 \<le> x + 1 / 2" using 3 by (simp add: d_def)
    ultimately show ?thesis using f by auto
  qed
qed

lemma round_half_even_up:
  assumes "of_int k - 1 / 2 \<le> x" "even k"
  shows "k \<le> round_half_even x"
proof (cases "k \<le> \<lfloor>x\<rfloor>")
  case True
  then show ?thesis using round_half_even_ge[of x] by linarith
next
  case False
  have "of_int (k - 1) \<le> x" using assms(1) by simp
  then have "k - 1 \<le> \<lfloor>x\<rfloor>" by (simp only: le_floor_iff)
  then have f: "\<lfloor>x\<rfloor> = k - 1" using False by simp
  then have odd: "odd \<lfloor>x\<rfloor>" using assms(2) by simp
  have "1 / 2 \<le> x - of_int \<lfloor>x\<rfloor>" using assms(1) by (simp add: f)
  then show ?thesis using odd f by (auto simp: round_half_even_def Let_def not_less)
qed

lemma ilog2_unique:
  assumes "pow2 k \<le> q" "q < pow2 (k + 1)"
  shows "ilog2 q = k"
proof -
  have q0: "0 < q" using assms(1) pow2_pos[of k] by simp
  have "pow2 (ilog2 q) \<le> q" by (rule ilog2_bounds(1)[OF q0])
  also have "q < pow2 (k + 1)" by fact
  finally have a: "ilog2 q < k + 1" by (simp add: pow2_less_iff)
  have "pow2 k \<le> q" by fact
  also have "q < pow2 (ilog2 q + 1)" by (rule ilog2_bounds(2)[OF q0])
  finally have "k < ilog2 q + 1" by (simp add: pow2_less_iff)
  then show ?thesis using a by simp
qed

lemma round64_finite_iff:
  assumes "0 \<le> q"
  shows "is_finite (round64 s q) \<longleftrightarrow> q < 2 ^ 1024 - 2 ^ 970"
proof (cases "q = 0")
  case True
  then show ?thesis by (simp add: round64_def)
next
  case False
  then have q0: "0 < q" using assms by simp
  define d where "d = max (ilog2 q - 52) (- 1074)"
  define r where "r = of_int (round_half_even (q / pow2 d)) * pow2 d"
  have fin: "is_finite (round64 s q) \<longleftrightarrow> r < 2 ^ 1024"
    using False unfolding round64_def d_def[symmetric] Let_def r_def[symmetric]
    by (simp add: not_le)
  have p970: "pow2 970 = 2 ^ 970" and p1024: "pow2 1024 = 2 ^ 1024"
    and p1023: "pow2 1023 = 2 ^ 1023"
    by (simp_all add: pow2_def)
  show ?thesis
  proof (cases "q < 2 ^ 1024 - 2 ^ 970")
    case True
    have "q < pow2 1024" using True by (simp add: p1024)
    moreover have "pow2 (ilog2 q) \<le> q" by (rule ilog2_bounds(1)[OF q0])
    ultimately have "ilog2 q < 1024" using pow2_less_iff[of "ilog2 q" 1024] by simp
    then have d: "d \<le> 971" by (simp add: d_def)
    have "r \<le> (q / pow2 d + 1 / 2) * pow2 d"
      unfolding r_def using round_half_even_le[of "q / pow2 d"] pow2_pos[of d] by simp
    also have "\<dots> = q + pow2 d / 2" using pow2_pos[of d] by (simp add: field_simps)
    also have "pow2 d / 2 = pow2 (d - 1)"
      using pow2_add[of "d - 1" 1] by (simp add: pow2_def[of 1])
    also have "q + pow2 (d - 1) \<le> q + pow2 970"
      using d by (simp add: pow2_le_iff)
    also have "\<dots> < 2 ^ 1024" using True by (simp add: p970)
    finally show ?thesis using True by (simp add: fin)
  next
    case False
    then have big: "2 ^ 1024 - 2 ^ 970 \<le> q" by simp
    show ?thesis
    proof (cases "2 ^ 1024 \<le> q")
      case True
      then show ?thesis using False round64_overflow[OF True, of s] by simp
    next
      case small: False
      have "pow2 1023 \<le> 2 ^ 1024 - 2 ^ 970" by (simp add: p1023)
      then have "pow2 1023 \<le> q" using big by simp
      moreover have "q < pow2 (1023 + 1)" using small by (simp add: p1024)
      ultimately have "ilog2 q = 1023" by (rule ilog2_unique)
      then have d: "d = 971" by (simp add: d_def)
      have h: "(2 ^ 1024 - 2 ^ 970) / pow2 971 \<le> q / pow2 971"
        using big pow2_pos[of 971] by (simp only: divide_right_mono less_imp_le)
      have e: "(2 ^ 1024 - 2 ^ 970) / pow2 971 = (of_int (2 ^ 53) :: rat) - 1 / 2"
        by (simp add: pow2_def)
      have "of_int (2 ^ 53) - 1 / 2 \<le> q / pow2 971" using h by (simp only: e)
      then have "2 ^ 53 \<le> round_half_even (q / pow2 971)"
        by (rule round_half_even_up) simp
      then have "(of_int (2 ^ 53) :: rat) \<le> of_int (round_half_even (q / pow2 971))"
        by (simp only: of_int_le_iff)
      then have "of_int (2 ^ 53) * pow2 971 \<le> r"
        unfolding r_def d using pow2_pos[of 971] by simp
      moreover have "of_int (2 ^ 53) * pow2 971 = (2 ^ 1024 :: rat)" by (simp add: pow2_def)
      ultimately have "2 ^ 1024 \<le> r" by simp
      then show ?thesis using False by (simp add: fin)
    qed
  qed
qed

lemma literal_ok_iff:
  "literal_ok n \<longleftrightarrow>
     n \<noteq> [] \<and> list_all is_digit n \<and> base_val 10 n < 2 ^ 1024 - 2 ^ 970"
proof (cases "list_all is_digit n")
  case True
  have "(of_int (base_val 10 n) :: rat) < 2 ^ 1024 - 2 ^ 970
      \<longleftrightarrow> (of_int (base_val 10 n) :: rat) < of_int (2 ^ 1024 - 2 ^ 970)"
    by simp
  also have "\<dots> \<longleftrightarrow> base_val 10 n < 2 ^ 1024 - 2 ^ 970" by (simp only: of_int_less_iff)
  finally show ?thesis
    using round64_finite_iff[of "of_int (base_val 10 n)" False] base_val_nonneg[OF True]
    by (simp add: literal_ok_def literal_value_def True)
next
  case False
  then show ?thesis by (simp add: literal_ok_def)
qed


subsection \<open>The claim about evaluation\<close>

text \<open>
  Claim C1, as the code has it.  Take a text that, spaces apart, spells an expression
  of the grammar whose literals are non-empty strings of decimal digits (no decimal
  point) with a finite \<^verbatim>\<open>float64\<close> value, that is, below \<open>2 ^ 1024 - 2 ^ 970\<close>
  (\<open>literal_ok_iff\<close>).  Then \<^verbatim>\<open>Calc\<close> returns the value of the expression in \<^verbatim>\<open>float64\<close>
  arithmetic, operators of equal precedence grouped to the left and \<^verbatim>\<open>*\<close>, \<^verbatim>\<open>/\<close> before
  \<^verbatim>\<open>+\<close>, \<^verbatim>\<open>-\<close>; it fails only when a divisor evaluates to zero, and then with
  \<^verbatim>\<open>ErrDivisionByZero\<close>.
\<close>

theorem C1_evaluation:
  assumes "filter (\<lambda>c. c \<noteq> CHR '' '') s = concat (tokens_sum e)" and "literals_sum e"
  shows "Calc s = value_sum e
    \<and> (Calc s = Inl ErrDivisionByZero \<or> (\<exists>v. Calc s = Inr v))"
proof -
  have c: "Calc s = value_sum e"
    using Calc_no_space[of s] Calc_rendered[OF assms(2)] assms(1) by simp
  have "value_sum e = Inl ErrDivisionByZero \<or> (\<exists>v. value_sum e = Inr v)"
    using value_error(1)[of e] by (cases "value_sum e") auto
  then show ?thesis using c by simp
qed

theorem C1_evaluation_witness:
  "filter (\<lambda>c. c \<noteq> CHR '' '') '' (1 + 2) * 3 - 8 / 4 '' =
     concat (tokens_sum (Sub (Term (Mul (Factor (Paren (Add (Term (Factor (Lit ''1'')))
       (Factor (Lit ''2''))))) (Lit ''3''))) (Quot (Factor (Lit ''8'')) (Lit ''4''))))
   \<and> literals_sum (Sub (Term (Mul (Factor (Paren (Add (Term (Factor (Lit ''1'')))
       (Factor (Lit ''2''))))) (Lit ''3''))) (Quot (Factor (Lit ''8'')) (Lit ''4'')))
   \<and> Calc '' (1 + 2) * 3 - 8 / 4 '' = Inr (Finite False 7)
   \<and> Calc ''7 / (2 - 2)'' = Inl ErrDivisionByZero"
proof -
  let ?e = "Sub (Term (Mul (Factor (Paren (Add (Term (Factor (Lit ''1'')))
       (Factor (Lit ''2''))))) (Lit ''3''))) (Quot (Factor (Lit ''8'')) (Lit ''4''))"
  let ?z = "Term (Quot (Factor (Lit ''7'')) (Paren (Sub (Term (Factor (Lit ''2'')))
       (Factor (Lit ''2'')))))"
  have lit: "literal_ok ''1''" "literal_ok ''2''" "literal_ok ''3''" "literal_ok ''4''"
    "literal_ok ''7''" "literal_ok ''8''"
    by (simp_all add: literal_ok_def literal_value_def digit_eval)
  have s1: "filter (\<lambda>c. c \<noteq> CHR '' '') '' (1 + 2) * 3 - 8 / 4 '' = concat (tokens_sum ?e)"
    by simp
  have s2: "filter (\<lambda>c. c \<noteq> CHR '' '') ''7 / (2 - 2)'' = concat (tokens_sum ?z)"
    by simp
  have l1: "literals_sum ?e" and l2: "literals_sum ?z" by (simp_all add: lit)
  have v1: "value_sum ?e = Inr (Finite False 7)"
    by (simp add: binary_def quotient_def literal_value_def digit_eval f64_sub_def signed_def)
  have v2: "value_sum ?z = Inl ErrDivisionByZero"
    by (simp add: binary_def quotient_def literal_value_def digit_eval f64_sub_def signed_def)
  show ?thesis
    using C1_evaluation[OF s1 l1] C1_evaluation[OF s2 l2] s1 l1 v1 v2 by simp
qed

theorem C1_counterexample:
  "Calc ''1/0'' = Inl ErrDivisionByZero
   \<and> Calc ''1.5'' = Inl ErrInvalidExpression
   \<and> Calc (CHR ''1'' # replicate 309 (CHR ''0'')) = Inl ErrInvalidExpression"
proof -
  have a: "Calc ''1/0'' = Inl ErrDivisionByZero" by (simp add: calc_eval conv_eval)
  have b: "Calc ''1.5'' = Inl ErrInvalidExpression"
    by (simp add: Calc_def TrimSpace_def isSpace_def ContainsRune_def less_eq_char_def)
  show ?thesis by (intro conjI a b Calc_huge_literal)
qed


end
